theory Spec2Isabelle
  imports
    Main
    "HOL-Library.Char_ord"
    "HOL-Library.List_Lexorder"
    "HOL-Library.Multiset"
    "HOL-Library.Product_Lexorder"
begin

section \<open>Paths\<close>

text \<open>
  A \<^verbatim>\<open>pathlib.Path\<close> is its anchor (drive and root, \<^verbatim>\<open>/\<close> on POSIX) and the list of
  its components below the anchor. Two paths are equal when both agree. File names are byte
  strings.
\<close>

datatype path = Path (anchor: string) (parts: "string list")

text \<open>\<^verbatim>\<open>path.name\<close>: the final component, the empty string when there is none.\<close>

definition name :: "path \<Rightarrow> string" where
  "name p = (if parts p = [] then [] else last (parts p))"

text \<open>\<^verbatim>\<open>path / n\<close> for a single component \<open>n\<close>.\<close>

definition child :: "path \<Rightarrow> string \<Rightarrow> path" where
  "child p n = Path (anchor p) (parts p @ [n])"

text \<open>\<^verbatim>\<open>path.parent\<close>: the anchor is its own parent.\<close>

definition parent :: "path \<Rightarrow> path" where
  "parent p = Path (anchor p) (butlast (parts p))"

text \<open>Exceptions of the Python run time that the program meets.\<close>

datatype oserror =
    PermissionError | FileNotFoundError | FileExistsError | NotADirectoryError
  | IsADirectoryError | SameFileError | OtherOSError

datatype pyexc = OSError oserror | ValueError | ZeroDivisionError

section \<open>PathClassifier: \<^verbatim>\<open>get_extension_subdir\<close>\<close>

text \<open>
  \<^verbatim>\<open>str.rfind(c)\<close>: the highest index of \<open>c\<close>, or \<open>-1\<close>.
\<close>

fun rfind :: "char \<Rightarrow> string \<Rightarrow> int" where
  "rfind c [] = -1"
| "rfind c (x # xs) =
     (let r = rfind c xs in if 0 \<le> r then r + 1 else if x = c then 0 else -1)"

text \<open>
  \<^verbatim>\<open>PurePath.suffix\<close> as pathlib defines it (up to Python 3.13):
  \<^verbatim>\<open>i = name.rfind('.'); return name[i:] if 0 < i < len(name) - 1 else ''\<close>.
\<close>

definition suffix_of :: "string \<Rightarrow> string" where
  "suffix_of nm =
     (let i = rfind (CHR ''.'') nm
      in if 0 < i \<and> i < int (length nm) - 1 then drop (nat i) nm else [])"

definition suffix :: "path \<Rightarrow> string" where
  "suffix p = suffix_of (name p)"

text \<open>
  \<^verbatim>\<open>str.lower()\<close> applies the case mapping of the Unicode standard, which is no part of
  the program: the functions that lower-case take it as their parameter \<open>str_lower\<close>, a
  function on names (on the bytes of a name it is \<^verbatim>\<open>str.lower\<close> of the decoded name,
  encoded again). \<open>lower_ascii\<close> is what it does to a name of ASCII characters.
  \<open>is_str_lower\<close> holds what is used of it: on a name of ASCII characters it is
  \<open>lower_ascii\<close>, a leading dot stays where it is and what follows is lowered as it is on
  its own, and no dot appears where there was none.
\<close>

definition ascii_upper :: string where
  "ascii_upper = ''ABCDEFGHIJKLMNOPQRSTUVWXYZ''"

definition ascii_lower :: string where
  "ascii_lower = ''abcdefghijklmnopqrstuvwxyz''"

definition lower_char :: "char \<Rightarrow> char" where
  "lower_char c = (case map_of (zip ascii_upper ascii_lower) c of Some d \<Rightarrow> d | None \<Rightarrow> c)"

definition lower_ascii :: "string \<Rightarrow> string" where
  "lower_ascii s = map lower_char s"

definition is_ascii :: "string \<Rightarrow> bool" where
  "is_ascii s = (\<forall>c\<in>set s. (of_char c :: nat) < 128)"

definition is_str_lower :: "(string \<Rightarrow> string) \<Rightarrow> bool" where
  "is_str_lower f \<longleftrightarrow>
     (\<forall>s. is_ascii s \<longrightarrow> f s = lower_ascii s)
     \<and> (\<forall>s. f (CHR ''.'' # s) = CHR ''.'' # f s)
     \<and> (\<forall>s. CHR ''.'' \<notin> set s \<longrightarrow> CHR ''.'' \<notin> set (f s))"

text \<open>\<^verbatim>\<open>s.lstrip(cs)\<close>: drops every leading character that occurs in \<open>cs\<close>.\<close>

definition lstrip :: "string \<Rightarrow> string \<Rightarrow> string" where
  "lstrip cs s = dropWhile (\<lambda>c. c \<in> set cs) s"

definition get_extension_subdir :: "(string \<Rightarrow> string) \<Rightarrow> path \<Rightarrow> string" where
  "get_extension_subdir str_lower p =
     (let e = str_lower (suffix p) in if e \<noteq> [] then lstrip ''.'' e else ''no_extension'')"

section \<open>ContainmentGuard: \<^verbatim>\<open>is_inside\<close>\<close>

text \<open>
  \<^verbatim>\<open>child.relative_to(parent)\<close>: the remainder of \<open>child\<close> below \<open>parent\<close>, or
  \<^verbatim>\<open>ValueError\<close> when the anchors differ or the components of \<open>parent\<close> do not start
  those of \<open>child\<close>.
\<close>

definition relative_to :: "path \<Rightarrow> path \<Rightarrow> pyexc + path" where
  "relative_to c p =
     (if anchor c = anchor p \<and> take (length (parts p)) (parts c) = parts p
      then Inr (Path [] (drop (length (parts p)) (parts c)))
      else Inl ValueError)"

text \<open>
  \<^verbatim>\<open>try: child.relative_to(parent); return True except ValueError: return False\<close>.
  Any other exception would propagate.
\<close>

definition is_inside :: "path \<Rightarrow> path \<Rightarrow> pyexc + bool" where
  "is_inside c p =
     (case relative_to c p of
        Inr _ \<Rightarrow> Inr True
      | Inl ValueError \<Rightarrow> Inr False
      | Inl e \<Rightarrow> Inl e)"

section \<open>File system\<close>

text \<open>
  The file system the program runs on: a table of nodes keyed by canonical path, the
  canonicalisation that \<^verbatim>\<open>Path.resolve()\<close> computes (the identity where no symbolic link is
  involved), and the failures the operating system injects (missing permissions, I/O
  errors), per operation and path. A directory node holds the names that listing it yields;
  a name whose path has no node behaves as a dangling entry. \<open>clock\<close> is the time of the
  run, the modification time of a file that the run creates or empties; \<open>written\<close> is the
  number of bytes that reach a destination before the copying of the bytes fails.
\<close>

datatype node = is_File: File (content: string) (mtime: nat) | is_Dir: Dir (names: "string list")

datatype op = OpStat | OpList | OpRead | OpWrite | OpData | OpUtime | OpChmod | OpMkdir

record fs =
  nodes :: "path \<Rightarrow> node option"
  canon :: "path \<Rightarrow> path"
  fault :: "op \<Rightarrow> path \<Rightarrow> oserror option"
  written :: "path \<Rightarrow> nat"
  clock :: nat

definition resolve :: "fs \<Rightarrow> path \<Rightarrow> path" where
  "resolve F p = canon F p"

definition stat :: "fs \<Rightarrow> path \<Rightarrow> oserror + node" where
  "stat F p =
     (case fault F OpStat p of
        Some e \<Rightarrow> Inl e
      | None \<Rightarrow> (case nodes F (canon F p) of None \<Rightarrow> Inl FileNotFoundError | Some n \<Rightarrow> Inr n))"

text \<open>
  \<^verbatim>\<open>exists\<close>, \<^verbatim>\<open>is_dir\<close> and \<^verbatim>\<open>is_file\<close> answer \<^verbatim>\<open>False\<close> when the path is missing and
  raise every other error of \<^verbatim>\<open>stat\<close>.
\<close>

definition ignore_error :: "oserror \<Rightarrow> bool" where
  "ignore_error e = (e = FileNotFoundError \<or> e = NotADirectoryError)"

definition probe :: "(node \<Rightarrow> bool) \<Rightarrow> fs \<Rightarrow> path \<Rightarrow> oserror + bool" where
  "probe f F p =
     (case stat F p of
        Inl e \<Rightarrow> if ignore_error e then Inr False else Inl e
      | Inr n \<Rightarrow> Inr (f n))"

definition exists :: "fs \<Rightarrow> path \<Rightarrow> oserror + bool" where
  "exists = probe (\<lambda>n. True)"

definition is_dir :: "fs \<Rightarrow> path \<Rightarrow> oserror + bool" where
  "is_dir = probe is_Dir"

definition is_file :: "fs \<Rightarrow> path \<Rightarrow> oserror + bool" where
  "is_file = probe is_File"

definition iterdir :: "fs \<Rightarrow> path \<Rightarrow> oserror + path list" where
  "iterdir F p =
     (case fault F OpList p of
        Some e \<Rightarrow> Inl e
      | None \<Rightarrow>
          (case nodes F (canon F p) of
             None \<Rightarrow> Inl FileNotFoundError
           | Some (File c m) \<Rightarrow> Inl NotADirectoryError
           | Some (Dir ns) \<Rightarrow> Inr (map (child p) ns)))"

text \<open>\<^verbatim>\<open>os.mkdir\<close>: one new, empty directory, entered into its parent.\<close>

definition os_mkdir :: "fs \<Rightarrow> path \<Rightarrow> oserror + fs" where
  "os_mkdir F p =
     (case fault F OpMkdir p of
        Some e \<Rightarrow> Inl e
      | None \<Rightarrow>
          (let q = canon F p in
           case nodes F q of
             Some n \<Rightarrow> Inl FileExistsError
           | None \<Rightarrow>
               (case nodes F (parent q) of
                  None \<Rightarrow> Inl FileNotFoundError
                | Some (File c m) \<Rightarrow> Inl NotADirectoryError
                | Some (Dir ns) \<Rightarrow>
                    Inr (F\<lparr>nodes := (nodes F)(parent q \<mapsto> Dir (ns @ [name q]), q \<mapsto> Dir [])\<rparr>))))"

text \<open>
  \<^verbatim>\<open>Path.mkdir(exist_ok=True)\<close> without \<^verbatim>\<open>parents\<close>: an error of \<^verbatim>\<open>os.mkdir\<close> other than a
  missing parent is dropped when the path is a directory already.
\<close>

definition mkdir_exist_ok :: "fs \<Rightarrow> path \<Rightarrow> oserror + fs" where
  "mkdir_exist_ok F p =
     (case os_mkdir F p of
        Inr F' \<Rightarrow> Inr F'
      | Inl e \<Rightarrow>
          if e = FileNotFoundError then Inl e
          else (case is_dir F p of
                  Inl e' \<Rightarrow> Inl e'
                | Inr True \<Rightarrow> Inr F
                | Inr False \<Rightarrow> Inl e))"

text \<open>
  \<^verbatim>\<open>Path.mkdir(parents=True, exist_ok=True)\<close>: on a missing parent, the parent is made the
  same way and the directory is tried once more. The result is the disk as the call leaves
  it and the error it raised, if any: ancestors made before a failure stay.
\<close>

function mkdir :: "fs \<Rightarrow> path \<Rightarrow> fs \<times> oserror option" where
  "mkdir F p =
     (case os_mkdir F p of
        Inr F' \<Rightarrow> (F', None)
      | Inl e \<Rightarrow>
          if e = FileNotFoundError then
            (if parent p = p then (F, Some e)
             else (case mkdir F (parent p) of
                     (F', Some e') \<Rightarrow> (F', Some e')
                   | (F', None) \<Rightarrow>
                       (case mkdir_exist_ok F' p of
                          Inl e2 \<Rightarrow> (F', Some e2)
                        | Inr F2 \<Rightarrow> (F2, None))))
          else (case is_dir F p of
                  Inl e' \<Rightarrow> (F, Some e')
                | Inr True \<Rightarrow> (F, None)
                | Inr False \<Rightarrow> (F, Some e)))"
  by pat_completeness auto
termination
proof (relation "measure (\<lambda>(F, p). length (parts p))")
  show "wf (measure (\<lambda>(F, p). length (parts p)))" by simp
next
  fix F :: fs and p :: path and e :: oserror
  assume "parent p \<noteq> p"
  then have "parts p \<noteq> []" by (cases p) (auto simp: parent_def)
  then show "((F, parent p), (F, p)) \<in> measure (\<lambda>(F, p). length (parts p))"
    by (simp add: parent_def)
qed

declare mkdir.simps [simp del]

text \<open>
  \<^verbatim>\<open>shutil.copy2(src, dst)\<close>: a destination that is a directory receives the file under
  the source's name; copying a file onto itself is refused. It is \<^verbatim>\<open>copyfile\<close>, then
  \<^verbatim>\<open>copystat\<close>: the source is opened, then the destination is opened for writing, which
  creates it or empties the file that is there; the bytes are copied; the modification time
  of the source is set; the permission bits are set. A failure after the destination was
  opened leaves the destination on disk: with a part of the content, without the time of
  the source, or complete. The result is the disk as the call leaves it and the error it
  raised, if any.
\<close>

definition isdir_quiet :: "fs \<Rightarrow> path \<Rightarrow> bool" where
  "isdir_quiet F p = (case stat F p of Inr (Dir ns) \<Rightarrow> True | _ \<Rightarrow> False)"

definition samefile_quiet :: "fs \<Rightarrow> path \<Rightarrow> path \<Rightarrow> bool" where
  "samefile_quiet F s t =
     (case (stat F s, stat F t) of (Inr a, Inr b) \<Rightarrow> canon F s = canon F t | _ \<Rightarrow> False)"

definition read_file :: "fs \<Rightarrow> path \<Rightarrow> oserror + string \<times> nat" where
  "read_file F s =
     (case fault F OpRead s of
        Some e \<Rightarrow> Inl e
      | None \<Rightarrow>
          (case nodes F (canon F s) of
             None \<Rightarrow> Inl FileNotFoundError
           | Some (Dir ns) \<Rightarrow> Inl IsADirectoryError
           | Some (File c m) \<Rightarrow> Inr (c, m)))"

definition open_write :: "fs \<Rightarrow> path \<Rightarrow> oserror + fs" where
  "open_write F t =
     (case fault F OpWrite t of
        Some e \<Rightarrow> Inl e
      | None \<Rightarrow>
          (let q = canon F t in
           case nodes F q of
             Some (Dir ns) \<Rightarrow> Inl IsADirectoryError
           | Some (File c m) \<Rightarrow> Inr (F\<lparr>nodes := (nodes F)(q \<mapsto> File [] (clock F))\<rparr>)
           | None \<Rightarrow>
               (case nodes F (parent q) of
                  None \<Rightarrow> Inl FileNotFoundError
                | Some (File c m) \<Rightarrow> Inl NotADirectoryError
                | Some (Dir ns) \<Rightarrow>
                    Inr (F\<lparr>nodes := (nodes F)(parent q \<mapsto> Dir (ns @ [name q]),
                                                 q \<mapsto> File [] (clock F))\<rparr>))))"

text \<open>The open file at \<open>t\<close> receives content and modification time.\<close>

definition put :: "fs \<Rightarrow> path \<Rightarrow> string \<Rightarrow> nat \<Rightarrow> fs" where
  "put F t c m = F\<lparr>nodes := (nodes F)(canon F t \<mapsto> File c m)\<rparr>"

definition copy2 :: "fs \<Rightarrow> path \<Rightarrow> path \<Rightarrow> fs \<times> oserror option" where
  "copy2 F s t0 =
     (let t = (if isdir_quiet F t0 then child t0 (name s) else t0)
      in if samefile_quiet F s t then (F, Some SameFileError)
         else (case read_file F s of
                 Inl e \<Rightarrow> (F, Some e)
               | Inr (c, m) \<Rightarrow>
                   (case open_write F t of
                      Inl e \<Rightarrow> (F, Some e)
                    | Inr F1 \<Rightarrow>
                        (case fault F OpData t of
                           Some e \<Rightarrow> (put F1 t (take (written F t) c) (clock F), Some e)
                         | None \<Rightarrow>
                             (case fault F OpUtime t of
                                Some e \<Rightarrow> (put F1 t c (clock F), Some e)
                              | None \<Rightarrow> (put F1 t c m, fault F OpChmod t))))))"

section \<open>Process state\<close>

text \<open>
  A warning is recorded by one of the \<^verbatim>\<open>warn(...)\<close> calls of the program: the walker
  (on a directory it cannot list, on an entry it cannot classify), the copy loop, the
  renderer. Its text is a label followed by the path; several call sites share a label.
\<close>

datatype site = WalkDir | WalkItem | CopyFile | Render

datatype label = NoAccess | ReadFailed | NotFound | CopyFailed

datatype warning = Warning (site: site) (label: label) (subject: path)

datatype glyph = NoGlyph | Tee | Corner

datatype color =
    GREEN | YELLOW | MAGENTA | CYAN | LIGHTMAGENTA_EX | RED | LIGHTBLUE_EX | LIGHTCYAN_EX
  | LIGHTGREEN_EX | WHITE

text \<open>What the program writes to the terminal, and its pauses, in order.\<close>

datatype event =
    FatalSrc path
  | FatalDst path
  | ProgressBar nat nat
  | Sleep nat
  | Newline
  | WarnLine warning
  | Info
  | TreeDir string glyph string
  | TreeFile string glyph string color
  | TreeInaccessible string

text \<open>
  The state of one run: the disk, the global list \<^verbatim>\<open>ERRORS\<close>, the terminal output, the
  list \<^verbatim>\<open>files_to_copy\<close> that the walker fills, an exception that nothing caught, and the
  directories the walker was called on.
\<close>

record state =
  disk :: fs
  ERRORS :: "warning list"
  stdout :: "event list"
  files_to_copy :: "path list"
  raised :: "pyexc option"
  visited :: "path list"

definition warn :: "warning \<Rightarrow> state \<Rightarrow> state" where
  "warn w st = st\<lparr>ERRORS := ERRORS st @ [w]\<rparr>"

definition emit :: "event \<Rightarrow> state \<Rightarrow> state" where
  "emit e st = st\<lparr>stdout := stdout st @ [e]\<rparr>"

section \<open>TreeWalker: \<^verbatim>\<open>collect_files_recursive\<close>\<close>

definition read_warning :: "site \<Rightarrow> oserror \<Rightarrow> path \<Rightarrow> warning" where
  "read_warning s e p = Warning s (if e = PermissionError then NoAccess else ReadFailed) p"

definition is_skipped :: "fs \<Rightarrow> path option \<Rightarrow> path \<Rightarrow> bool" where
  "is_skipped F skip_dir item =
     (case skip_dir of None \<Rightarrow> False | Some s \<Rightarrow> resolve F item = resolve F s)"

text \<open>
  The first argument bounds the depth of the recursion; \<open>None\<close> means that the bound was
  reached before the walker returned.
\<close>

fun collect_files_recursive :: "nat \<Rightarrow> path \<Rightarrow> path option \<Rightarrow> state \<Rightarrow> state option"
  and collect_entries :: "nat \<Rightarrow> path list \<Rightarrow> path option \<Rightarrow> state \<Rightarrow> state option"
where
  "collect_files_recursive 0 src skip_dir st = None"
| "collect_files_recursive (Suc k) src skip_dir st =
     (let st1 = st\<lparr>visited := visited st @ [src]\<rparr> in
      case iterdir (disk st) src of
        Inl e \<Rightarrow> Some (warn (read_warning WalkDir e src) st1)
      | Inr entries \<Rightarrow> collect_entries k entries skip_dir st1)"
| "collect_entries k [] skip_dir st = Some st"
| "collect_entries k (item # rest) skip_dir st =
     (if is_skipped (disk st) skip_dir item then collect_entries k rest skip_dir st
      else
        (case is_dir (disk st) item of
           Inl e \<Rightarrow> collect_entries k rest skip_dir (warn (read_warning WalkItem e item) st)
         | Inr True \<Rightarrow>
             (case collect_files_recursive k item skip_dir st of
                None \<Rightarrow> None
              | Some st' \<Rightarrow> collect_entries k rest skip_dir st')
         | Inr False \<Rightarrow>
             (case is_file (disk st) item of
                Inl e \<Rightarrow> collect_entries k rest skip_dir (warn (read_warning WalkItem e item) st)
              | Inr True \<Rightarrow>
                  collect_entries k rest skip_dir (st\<lparr>files_to_copy := files_to_copy st @ [item]\<rparr>)
              | Inr False \<Rightarrow> collect_entries k rest skip_dir st)))"

section \<open>CopyEngine\<close>

definition copy_warning :: "oserror \<Rightarrow> path \<Rightarrow> warning" where
  "copy_warning e p =
     Warning CopyFile
       (if e = PermissionError then NoAccess
        else if e = FileNotFoundError then NotFound
        else CopyFailed) p"

text \<open>The body of the copy loop up to the progress bar, for one file.\<close>

definition copy_one :: "(string \<Rightarrow> string) \<Rightarrow> path \<Rightarrow> path \<Rightarrow> state \<Rightarrow> state" where
  "copy_one str_lower dst file_path st =
     (let ext_dir = get_extension_subdir str_lower file_path;
          target_dir = child dst ext_dir;
          target_file = child target_dir (name file_path)
      in case mkdir (disk st) target_dir of
           (F1, Some e) \<Rightarrow> warn (copy_warning e file_path) (st\<lparr>disk := F1\<rparr>)
         | (F1, None) \<Rightarrow>
             (case copy2 F1 file_path target_file of
                (F2, Some e) \<Rightarrow> warn (copy_warning e file_path) (st\<lparr>disk := F2\<rparr>)
              | (F2, None) \<Rightarrow> st\<lparr>disk := F2\<rparr>))"

text \<open>
  \<^verbatim>\<open>i / total\<close>: the progress bar receives the quotient; its two arguments are kept.
\<close>

definition truediv :: "nat \<Rightarrow> nat \<Rightarrow> pyexc + nat \<times> nat" where
  "truediv a b = (if b = 0 then Inl ZeroDivisionError else Inr (a, b))"

fun copy_loop ::
  "(string \<Rightarrow> string) \<Rightarrow> path \<Rightarrow> nat \<Rightarrow> nat \<Rightarrow> nat \<Rightarrow> path list \<Rightarrow> state \<Rightarrow> state"
where
  "copy_loop str_lower dst tot delay i [] st = st"
| "copy_loop str_lower dst tot delay i (file_path # rest) st =
     (let st1 = copy_one str_lower dst file_path st in
      case truediv i tot of
        Inl e \<Rightarrow> st1\<lparr>raised := Some e\<rparr>
      | Inr (a, b) \<Rightarrow>
          copy_loop str_lower dst tot delay (Suc i) rest
            (emit (Sleep delay) (emit (ProgressBar a b) st1)))"

section \<open>TreeRenderer: \<^verbatim>\<open>display_tree\<close>\<close>

definition EXT_COLOR_MAP :: "(string \<times> color) list" where
  "EXT_COLOR_MAP =
     [(''txt'', GREEN), (''log'', YELLOW), (''jpg'', MAGENTA), (''jpeg'', MAGENTA),
      (''png'', CYAN), (''gif'', LIGHTMAGENTA_EX), (''pdf'', RED), (''doc'', LIGHTBLUE_EX),
      (''xml'', LIGHTCYAN_EX), (''yml'', LIGHTGREEN_EX)]"

definition DEFAULT_FILE_COLOR :: color where
  "DEFAULT_FILE_COLOR = WHITE"

definition ext_color :: "path \<Rightarrow> color" where
  "ext_color p =
     (case map_of EXT_COLOR_MAP (lstrip ''.'' (suffix p)) of
        Some c \<Rightarrow> c
      | None \<Rightarrow> DEFAULT_FILE_COLOR)"

text \<open>
  The sort key \<^verbatim>\<open>(x.is_file(), x.name)\<close> of every entry, in listing order; the first
  \<^verbatim>\<open>is_file\<close> that raises ends the computation.
\<close>

fun sort_keys :: "fs \<Rightarrow> path list \<Rightarrow> oserror + (bool \<times> string) list" where
  "sort_keys F [] = Inr []"
| "sort_keys F (x # xs) =
     (case is_file F x of
        Inl e \<Rightarrow> Inl e
      | Inr b \<Rightarrow> (case sort_keys F xs of Inl e \<Rightarrow> Inl e | Inr ks \<Rightarrow> Inr ((b, name x) # ks)))"

text \<open>\<^verbatim>\<open>sorted(path.iterdir(), key=...)\<close>: a stable sort on the keys.\<close>

definition sorted_entries :: "fs \<Rightarrow> path \<Rightarrow> oserror + path list" where
  "sorted_entries F p =
     (case iterdir F p of
        Inl e \<Rightarrow> Inl e
      | Inr es \<Rightarrow>
          (case sort_keys F es of
             Inl e \<Rightarrow> Inl e
           | Inr ks \<Rightarrow> Inr (map snd (sort_key fst (zip ks es)))))"

text \<open>
  The prefix is the empty string, the connector of a child that is not the last one, or
  the connector of the last child. \<open>display_entries\<close> is the \<^verbatim>\<open>for\<close> loop over the
  enumerated entries: \<open>n\<close> is \<^verbatim>\<open>len(entries)\<close> and \<open>i\<close> the index. An error of the
  \<^verbatim>\<open>is_dir\<close> test is not caught and ends the rendering.
\<close>

fun display_tree :: "nat \<Rightarrow> path \<Rightarrow> string \<Rightarrow> glyph \<Rightarrow> state \<Rightarrow> state option"
  and display_entries :: "nat \<Rightarrow> path list \<Rightarrow> nat \<Rightarrow> nat \<Rightarrow> string \<Rightarrow> state \<Rightarrow> state option"
where
  "display_tree 0 p indent prefix st = None"
| "display_tree (Suc k) p indent prefix st =
     (case is_dir (disk st) p of
        Inl e \<Rightarrow> Some (st\<lparr>raised := Some (OSError e)\<rparr>)
      | Inr True \<Rightarrow>
          (let st1 = emit (TreeDir indent prefix (name p)) st;
               subindent = indent @ (if prefix \<noteq> NoGlyph then ''    '' else [])
           in case sorted_entries (disk st1) p of
                Inl e \<Rightarrow>
                  Some (emit (TreeInaccessible subindent) (warn (Warning Render NoAccess p) st1))
              | Inr entries \<Rightarrow> display_entries k entries (length entries) 0 subindent st1)
      | Inr False \<Rightarrow> Some (emit (TreeFile indent prefix (name p) (ext_color p)) st))"
| "display_entries k [] n i subindent st = Some st"
| "display_entries k (item # rest) n i subindent st =
     (case display_tree k item subindent (if int i = int n - 1 then Corner else Tee) st of
        None \<Rightarrow> None
      | Some st' \<Rightarrow>
          if raised st' \<noteq> None then Some st'
          else display_entries k rest n (Suc i) subindent st')"

section \<open>The program: \<^verbatim>\<open>main\<close>\<close>

text \<open>\<^verbatim>\<open>not src.exists() or not src.is_dir()\<close>.\<close>

definition src_missing :: "fs \<Rightarrow> path \<Rightarrow> oserror + bool" where
  "src_missing F src =
     (case exists F src of
        Inl e \<Rightarrow> Inl e
      | Inr False \<Rightarrow> Inr True
      | Inr True \<Rightarrow> (case is_dir F src of Inl e \<Rightarrow> Inl e | Inr d \<Rightarrow> Inr (\<not> d)))"

text \<open>\<^verbatim>\<open>skip_dir = dst if dst == src or is_inside(dst, src) else None\<close>.\<close>

definition choose_skip_dir :: "path \<Rightarrow> path \<Rightarrow> pyexc + path option" where
  "choose_skip_dir dst src =
     (if dst = src then Inr (Some dst)
      else (case is_inside dst src of
              Inl e \<Rightarrow> Inl e
            | Inr b \<Rightarrow> Inr (if b then Some dst else None)))"

text \<open>The pause after each file, in hundredths of a second.\<close>

definition choose_delay :: "nat \<Rightarrow> nat" where
  "choose_delay tot = (if tot \<le> 20 then 20 else if tot \<le> 100 then 10 else 3)"

fun print_warnings :: "warning list \<Rightarrow> state \<Rightarrow> state" where
  "print_warnings [] st = st"
| "print_warnings (e # es) st = print_warnings es (emit (WarnLine e) st)"

definition initial_state :: "fs \<Rightarrow> state" where
  "initial_state F =
     \<lparr>disk = F, ERRORS = [], stdout = [], files_to_copy = [], raised = None, visited = []\<rparr>"

text \<open>
  One run of the tool on the disk \<open>F\<close>, with the two command-line paths made absolute
  and \<^verbatim>\<open>str.lower\<close> as \<open>str_lower\<close>.
  The process is new, so \<^verbatim>\<open>ERRORS\<close> is empty when \<^verbatim>\<open>main\<close> starts. The result is the
  state when \<^verbatim>\<open>main\<close> returns or an exception leaves it; \<open>None\<close> means that the walker
  or the renderer reached the bound \<open>k\<close> on its recursion.
\<close>

definition main ::
  "(string \<Rightarrow> string) \<Rightarrow> nat \<Rightarrow> fs \<Rightarrow> path \<Rightarrow> path \<Rightarrow> state option"
where
  "main str_lower k F src_arg dst_arg =
     (let st0 = initial_state F;
          src = resolve F src_arg;
          dst = resolve F dst_arg
      in case src_missing F src of
           Inl e \<Rightarrow> Some (st0\<lparr>raised := Some (OSError e)\<rparr>)
         | Inr True \<Rightarrow> Some (emit (FatalSrc src) st0)
         | Inr False \<Rightarrow>
             (case choose_skip_dir dst src of
                Inl e \<Rightarrow> Some (st0\<lparr>raised := Some e\<rparr>)
              | Inr skip_dir \<Rightarrow>
                  (case mkdir F dst of
                     (F1, Some e) \<Rightarrow> Some (emit (FatalDst dst) (st0\<lparr>disk := F1\<rparr>))
                   | (F1, None) \<Rightarrow>
                       (case collect_files_recursive k src skip_dir (st0\<lparr>disk := F1\<rparr>) of
                          None \<Rightarrow> None
                        | Some st1 \<Rightarrow>
                            (let tot = length (files_to_copy st1) in
                             if tot = 0 then display_tree k dst [] NoGlyph st1
                             else
                               (let st2 = copy_loop str_lower dst tot (choose_delay tot) 1
                                            (files_to_copy st1) st1
                                in if raised st2 \<noteq> None then Some st2
                                   else
                                     (let st3 = emit Newline st2;
                                          st4 = (if ERRORS st3 \<noteq> []
                                                 then emit Newline (print_warnings (ERRORS st3) st3)
                                                 else st3);
                                          st5 = emit Info st4
                                      in display_tree k dst [] NoGlyph st5)))))))"

section \<open>Auxiliary notions and example disks\<close>

text \<open>
  What a call of the walker may change: it appends warnings of its own call sites, files and
  visited directories, none of which the skip test rejects, and leaves the rest alone.
\<close>

definition extends_walk :: "path option \<Rightarrow> path list \<Rightarrow> state \<Rightarrow> state \<Rightarrow> bool" where
  "extends_walk skip root st st' \<longleftrightarrow>
     disk st' = disk st \<and> stdout st' = stdout st \<and> raised st' = raised st \<and>
     (\<exists>ws fs vs. ERRORS st' = ERRORS st @ ws \<and> files_to_copy st' = files_to_copy st @ fs
        \<and> visited st' = visited st @ root @ vs
        \<and> (\<forall>w\<in>set ws. site w = WalkDir \<or> site w = WalkItem)
        \<and> (\<forall>p\<in>set fs \<union> set vs. \<not> is_skipped (disk st) skip p))"

text \<open>A disk on which no operation fails for an outside reason.\<close>

definition no_fault :: "op \<Rightarrow> path \<Rightarrow> oserror option" where
  "no_fault o' p = None"

text \<open>
  A source \<open>/s\<close> with a file, the destination \<open>/s/d\<close> and a symbolic link \<open>/s/l\<close>
  to the destination.
\<close>

definition link_fs :: fs where
  "link_fs =
     \<lparr>nodes = map_of
        [(Path ''/'' [], Dir [''s'']),
         (Path ''/'' [''s''], Dir [''a.txt'', ''d'', ''l'']),
         (Path ''/'' [''s'', ''a.txt''], File ''A'' 1),
         (Path ''/'' [''s'', ''d''], Dir [''x.txt'']),
         (Path ''/'' [''s'', ''d'', ''x.txt''], File ''X'' 2)],
      canon = (\<lambda>p. if p = Path ''/'' [''s'', ''l''] then Path ''/'' [''s'', ''d''] else p),
      fault = no_fault, written = (\<lambda>p. 0), clock = 0\<rparr>"

text \<open>A disk with nothing but the root directory.\<close>

definition empty_fs :: fs where
  "empty_fs = \<lparr>nodes = map_of [(Path ''/'' [], Dir [])], canon = (\<lambda>p. p), fault = no_fault, written = (\<lambda>p. 0), clock = 0\<rparr>"

text \<open>
  What a call of the renderer may change: it appends tree lines to the output and warnings
  of its own call site, and leaves the disk and the collected files alone.
\<close>

definition is_tree_event :: "event \<Rightarrow> bool" where
  "is_tree_event e =
     (case e of TreeDir i g n \<Rightarrow> True | TreeFile i g n c \<Rightarrow> True | TreeInaccessible i \<Rightarrow> True
      | _ \<Rightarrow> False)"

definition extends_display :: "state \<Rightarrow> state \<Rightarrow> bool" where
  "extends_display st st' \<longleftrightarrow>
     disk st' = disk st \<and> files_to_copy st' = files_to_copy st \<and> visited st' = visited st \<and>
     (\<exists>evs ws. stdout st' = stdout st @ evs \<and> ERRORS st' = ERRORS st @ ws
        \<and> (\<forall>e\<in>set evs. is_tree_event e) \<and> (\<forall>w\<in>set ws. site w = Render))"

text \<open>The sort key of an entry whose \<^verbatim>\<open>is_file\<close> test does not raise.\<close>

definition entry_key :: "fs \<Rightarrow> path \<Rightarrow> bool \<times> string" where
  "entry_key F x = (is_file F x = Inr True, name x)"

text \<open>The indent, prefix and name of a printed tree line.\<close>

definition line_of :: "event \<Rightarrow> (string \<times> glyph \<times> string) option" where
  "line_of e =
     (case e of TreeDir i g n \<Rightarrow> Some (i, g, n) | TreeFile i g n c \<Rightarrow> Some (i, g, n)
      | _ \<Rightarrow> None)"

text \<open>
  The prefix strings as Unicode code points: a box-drawing tee or corner, two box-drawing
  dashes and a space.
\<close>

definition prefix_text :: "glyph \<Rightarrow> nat list" where
  "prefix_text g =
     (case g of NoGlyph \<Rightarrow> [] | Tee \<Rightarrow> [9500, 9472, 9472, 32] | Corner \<Rightarrow> [9492, 9472, 9472, 32])"

text \<open>A destination \<open>/d\<close> with two files, an empty directory and a directory with a file.\<close>

definition tree_fs :: fs where
  "tree_fs =
     \<lparr>nodes = map_of
        [(Path ''/'' [], Dir [''d'']),
         (Path ''/'' [''d''], Dir [''b.txt'', ''z'', ''A.txt'', ''a'']),
         (Path ''/'' [''d'', ''b.txt''], File ''B'' 1),
         (Path ''/'' [''d'', ''z''], Dir []),
         (Path ''/'' [''d'', ''A.txt''], File ''A'' 2),
         (Path ''/'' [''d'', ''a''], Dir [''n.log'']),
         (Path ''/'' [''d'', ''a'', ''n.log''], File ''N'' 3)],
      canon = (\<lambda>p. p),
      fault = no_fault, written = (\<lambda>p. 0), clock = 0\<rparr>"

text \<open>The regular file at a canonical path, if there is one.\<close>

definition file_node :: "fs \<Rightarrow> path \<Rightarrow> node option" where
  "file_node F q = (case nodes F q of Some (File c m) \<Rightarrow> Some (File c m) | _ \<Rightarrow> None)"

text \<open>Two disks with the same regular files, links and failures.\<close>

definition keeps_files :: "fs \<Rightarrow> fs \<Rightarrow> bool" where
  "keeps_files F F' \<longleftrightarrow>
     canon F' = canon F \<and> fault F' = fault F \<and> (\<forall>q. file_node F' q = file_node F q)"

text \<open>
  No failure strikes once a destination is open: a copy that fails then fails before
  anything is written.
\<close>

definition clean_failures :: "fs \<Rightarrow> bool" where
  "clean_failures F \<longleftrightarrow>
     (\<forall>q. fault F OpData q = None \<and> fault F OpUtime q = None \<and> fault F OpChmod q = None)"

text \<open>The variable \<^verbatim>\<open>target_file\<close> of the copy loop, as a function of the file.\<close>

definition target_file :: "(string \<Rightarrow> string) \<Rightarrow> path \<Rightarrow> path \<Rightarrow> path" where
  "target_file str_lower dst file_path =
     child (child dst (get_extension_subdir str_lower file_path)) (name file_path)"

text \<open>The events that are a drawing of the progress bar.\<close>

definition is_progress :: "event \<Rightarrow> bool" where
  "is_progress e = (case e of ProgressBar a b \<Rightarrow> True | _ \<Rightarrow> False)"

text \<open>
  A source with one file and a destination in which the bucket path of that file is a
  directory.
\<close>

definition clash_fs :: fs where
  "clash_fs =
     \<lparr>nodes = map_of
        [(Path ''/'' [], Dir [''s'', ''d'']),
         (Path ''/'' [''s''], Dir [''x.txt'']),
         (Path ''/'' [''s'', ''x.txt''], File ''X'' 1),
         (Path ''/'' [''d''], Dir [''txt'']),
         (Path ''/'' [''d'', ''txt''], Dir [''x.txt'']),
         (Path ''/'' [''d'', ''txt'', ''x.txt''], Dir [])],
      canon = (\<lambda>p. p),
      fault = no_fault, written = (\<lambda>p. 0), clock = 0\<rparr>"

text \<open>A source with two files, the second of which cannot be read; no destination yet.\<close>

definition unreadable_fs :: fs where
  "unreadable_fs =
     \<lparr>nodes = map_of
        [(Path ''/'' [], Dir [''s'']),
         (Path ''/'' [''s''], Dir [''a.txt'', ''b.txt'']),
         (Path ''/'' [''s'', ''a.txt''], File ''A'' 1),
         (Path ''/'' [''s'', ''b.txt''], File ''B'' 2)],
      canon = (\<lambda>p. p),
      fault = (\<lambda>o' p. if o' = OpRead \<and> p = Path ''/'' [''s'', ''b.txt'']
                        then Some PermissionError else None),
      written = (\<lambda>p. 0), clock = 0\<rparr>"

text \<open>\<open>q\<close> is \<open>d\<close> or lies below it.\<close>

definition under :: "path \<Rightarrow> path \<Rightarrow> bool" where
  "under d q \<longleftrightarrow> anchor q = anchor d \<and> take (length (parts d)) (parts q) = parts d"

text \<open>The canonical paths at or below \<open>d\<close> that hold a regular file.\<close>

definition files_under :: "fs \<Rightarrow> path \<Rightarrow> path set" where
  "files_under F d = {q. under d q \<and> file_node F q \<noteq> None}"

text \<open>
  A source tree: \<open>src\<close> is a directory; at and below it there is no symbolic link and
  nothing that cannot be examined or listed; a directory lists a name once; and whatever
  exists below \<open>src\<close> is an entry of its parent directory.
\<close>

definition tidy_tree :: "fs \<Rightarrow> path \<Rightarrow> bool" where
  "tidy_tree F src \<longleftrightarrow>
     (\<exists>ns. nodes F src = Some (Dir ns))
     \<and> (\<forall>q. under src q \<longrightarrow>
            canon F q = q \<and> fault F OpStat q = None \<and> fault F OpList q = None)
     \<and> (\<forall>q ns. under src q \<and> nodes F q = Some (Dir ns) \<longrightarrow> distinct ns)
     \<and> (\<forall>q. under src q \<and> q \<noteq> src \<and> nodes F q \<noteq> None \<longrightarrow>
            (\<exists>ns. nodes F (parent q) = Some (Dir ns) \<and> name q \<in> set ns))"

text \<open>
  A call of the walker that leaves the disk alone and appends the paths of \<open>S\<close>, each
  once, to the collected files.
\<close>

definition gathers :: "state \<Rightarrow> state \<Rightarrow> path set \<Rightarrow> bool" where
  "gathers st st' S \<longleftrightarrow>
     disk st' = disk st
     \<and> (\<exists>fs. files_to_copy st' = files_to_copy st @ fs \<and> distinct fs \<and> set fs = S)"

text \<open>The number of warnings of the copy loop in a list of warnings.\<close>

definition copy_warnings :: "warning list \<Rightarrow> nat" where
  "copy_warnings ws = length (filter (\<lambda>w. site w = CopyFile) ws)"

text \<open>
  A source with one file; no destination yet; the modification time of the copy cannot be
  set.
\<close>

definition late_fs :: fs where
  "late_fs =
     \<lparr>nodes = map_of
        [(Path ''/'' [], Dir [''s'']),
         (Path ''/'' [''s''], Dir [''a.txt'']),
         (Path ''/'' [''s'', ''a.txt''], File ''A'' 1)],
      canon = (\<lambda>p. p),
      fault = (\<lambda>o' p. if o' = OpUtime \<and> p = Path ''/'' [''d'', ''txt'', ''a.txt'']
                        then Some PermissionError else None),
      written = (\<lambda>p. 0), clock = 7\<rparr>"

text \<open>A source with one file and a destination that holds a file already.\<close>

definition stale_fs :: fs where
  "stale_fs =
     \<lparr>nodes = map_of
        [(Path ''/'' [], Dir [''s'', ''d'']),
         (Path ''/'' [''s''], Dir [''a.txt'']),
         (Path ''/'' [''s'', ''a.txt''], File ''A'' 1),
         (Path ''/'' [''d''], Dir [''old.log'']),
         (Path ''/'' [''d'', ''old.log''], File ''O'' 0)],
      canon = (\<lambda>p. p),
      fault = no_fault, written = (\<lambda>p. 0), clock = 7\<rparr>"

text \<open>
  A source whose one directory holds two files and cannot be listed; no destination yet.
\<close>

definition closed_fs :: fs where
  "closed_fs =
     \<lparr>nodes = map_of
        [(Path ''/'' [], Dir [''s'']),
         (Path ''/'' [''s''], Dir [''sub'']),
         (Path ''/'' [''s'', ''sub''], Dir [''a.txt'', ''b.log'']),
         (Path ''/'' [''s'', ''sub'', ''a.txt''], File ''A'' 1),
         (Path ''/'' [''s'', ''sub'', ''b.log''], File ''B'' 2)],
      canon = (\<lambda>p. p),
      fault = (\<lambda>o' p. if o' = OpList \<and> p = Path ''/'' [''s'', ''sub'']
                        then Some PermissionError else None),
      written = (\<lambda>p. 0), clock = 7\<rparr>"

text \<open>A source with one file and a destination that cannot be made.\<close>

definition nodst_fs :: fs where
  "nodst_fs =
     \<lparr>nodes = map_of
        [(Path ''/'' [], Dir [''s'']),
         (Path ''/'' [''s''], Dir [''a.txt'']),
         (Path ''/'' [''s'', ''a.txt''], File ''A'' 1)],
      canon = (\<lambda>p. p),
      fault = (\<lambda>o' p. if o' = OpMkdir \<and> p = Path ''/'' [''d'']
                        then Some PermissionError else None),
      written = (\<lambda>p. 0), clock = 7\<rparr>"

text \<open>A source that cannot be listed; no destination yet.\<close>

definition denied_fs :: fs where
  "denied_fs =
     \<lparr>nodes = map_of
        [(Path ''/'' [], Dir [''s'']),
         (Path ''/'' [''s''], Dir [''a.txt'']),
         (Path ''/'' [''s'', ''a.txt''], File ''A'' 1)],
      canon = (\<lambda>p. p),
      fault = (\<lambda>o' p. if o' = OpList \<and> p = Path ''/'' [''s'']
                        then Some PermissionError else None),
      written = (\<lambda>p. 0), clock = 0\<rparr>"

text \<open>
  The disk after a first run with source and destination both \<open>/a\<close>, which held the one
  file \<open>x.txt\<close>.
\<close>

definition same_fs :: fs where
  "same_fs =
     \<lparr>nodes = map_of
        [(Path ''/'' [], Dir [''a'']),
         (Path ''/'' [''a''], Dir [''x.txt'', ''txt'']),
         (Path ''/'' [''a'', ''x.txt''], File ''X'' 1),
         (Path ''/'' [''a'', ''txt''], Dir [''x.txt'']),
         (Path ''/'' [''a'', ''txt'', ''x.txt''], File ''X'' 1)],
      canon = (\<lambda>p. p),
      fault = no_fault, written = (\<lambda>p. 0), clock = 0\<rparr>"

text \<open>A source with two files of the same name in two directories; no destination yet.\<close>

definition dup_fs :: fs where
  "dup_fs =
     \<lparr>nodes = map_of
        [(Path ''/'' [], Dir [''s'']),
         (Path ''/'' [''s''], Dir [''a'', ''b'']),
         (Path ''/'' [''s'', ''a''], Dir [''x.txt'']),
         (Path ''/'' [''s'', ''b''], Dir [''x.txt'']),
         (Path ''/'' [''s'', ''a'', ''x.txt''], File ''A'' 1),
         (Path ''/'' [''s'', ''b'', ''x.txt''], File ''B'' 2)],
      canon = (\<lambda>p. p),
      fault = no_fault, written = (\<lambda>p. 0), clock = 0\<rparr>"

text \<open>A source with nothing but an empty directory; no destination yet.\<close>

definition emptydirs_fs :: fs where
  "emptydirs_fs =
     \<lparr>nodes = map_of
        [(Path ''/'' [], Dir [''s'']),
         (Path ''/'' [''s''], Dir [''e'']),
         (Path ''/'' [''s'', ''e''], Dir [])],
      canon = (\<lambda>p. p),
      fault = no_fault, written = (\<lambda>p. 0), clock = 0\<rparr>"

text \<open>A destination whose bucket directory cannot be listed.\<close>

definition hidden_fs :: fs where
  "hidden_fs =
     \<lparr>nodes = map_of
        [(Path ''/'' [], Dir [''s'', ''d'']),
         (Path ''/'' [''s''], Dir [''a.txt'']),
         (Path ''/'' [''s'', ''a.txt''], File ''A'' 1),
         (Path ''/'' [''d''], Dir [''txt'']),
         (Path ''/'' [''d'', ''txt''], Dir [])],
      canon = (\<lambda>p. p),
      fault = (\<lambda>o' p. if o' = OpList \<and> p = Path ''/'' [''d'', ''txt'']
                        then Some PermissionError else None),
      written = (\<lambda>p. 0), clock = 0\<rparr>"

text \<open>
  A call of the walker that leaves the disk alone and appends only files and visited
  directories that satisfy \<open>Q\<close>.
\<close>

definition walk_within :: "(path \<Rightarrow> bool) \<Rightarrow> state \<Rightarrow> state \<Rightarrow> bool" where
  "walk_within Q st st' \<longleftrightarrow>
     disk st' = disk st \<and>
     (\<exists>fs vs. files_to_copy st' = files_to_copy st @ fs \<and> visited st' = visited st @ vs
        \<and> (\<forall>p\<in>set fs \<union> set vs. Q p))"

section \<open>Properties of the classifier\<close>

lemma rfind_lower_bound: "- 1 \<le> rfind c s"
  by (induction s) (auto simp: Let_def)

lemma rfind_upper_bound: "rfind c s < int (length s)"
  by (induction s) (auto simp: Let_def)

lemma rfind_absent: "c \<notin> set s \<Longrightarrow> rfind c s = - 1"
  by (induction s) (auto simp: Let_def)

lemma rfind_append_last:
  "c \<notin> set ext \<Longrightarrow> rfind c (stem @ c # ext) = int (length stem)"
  by (induction stem) (auto simp: Let_def rfind_absent)

lemma rfind_split:
  "0 \<le> rfind c s \<Longrightarrow>
     \<exists>stem ext. s = stem @ c # ext \<and> c \<notin> set ext \<and> rfind c s = int (length stem)"
proof (induction s)
  case Nil
  then show ?case by simp
next
  case (Cons x xs)
  show ?case
  proof (cases "0 \<le> rfind c xs")
    case True
    with Cons.IH obtain stem ext where
      h: "xs = stem @ c # ext" "c \<notin> set ext" "rfind c xs = int (length stem)"
      by blast
    have "x # xs = (x # stem) @ c # ext" using h by simp
    moreover have "rfind c (x # xs) = int (length (x # stem))"
      using True h by (simp add: Let_def)
    ultimately show ?thesis using h(2) by blast
  next
    case False
    with Cons.prems have xc: "x = c" by (auto simp: Let_def split: if_splits)
    have "c \<notin> set xs"
    proof
      assume "c \<in> set xs"
      then obtain ys zs where "xs = ys @ c # zs" "c \<notin> set zs"
        by (meson split_list_last)
      then have "rfind c xs = int (length ys)" by (simp add: rfind_append_last)
      with False show False by simp
    qed
    moreover have "rfind c (x # xs) = 0" using False xc by (simp add: Let_def)
    ultimately show ?thesis using xc by fastforce
  qed
qed

lemma suffix_of_split:
  assumes "stem \<noteq> []" "ext \<noteq> []" "CHR ''.'' \<notin> set ext"
  shows "suffix_of (stem @ CHR ''.'' # ext) = CHR ''.'' # ext"
  using assms by (cases ext) (auto simp: suffix_of_def rfind_append_last Let_def)

lemma suffix_of_nonempty:
  assumes "suffix_of nm \<noteq> []"
  shows "\<exists>stem ext. nm = stem @ CHR ''.'' # ext \<and> stem \<noteq> [] \<and> ext \<noteq> []
            \<and> CHR ''.'' \<notin> set ext"
proof -
  let ?i = "rfind (CHR ''.'') nm"
  from assms have b: "0 < ?i" "?i < int (length nm) - 1"
    by (auto simp: suffix_of_def Let_def split: if_splits)
  then obtain stem ext where
    h: "nm = stem @ CHR ''.'' # ext" "CHR ''.'' \<notin> set ext" "?i = int (length stem)"
    using rfind_split [of "CHR ''.''" nm] by auto
  from b h have "stem \<noteq> []" "ext \<noteq> []" by auto
  with h show ?thesis by blast
qed

lemma lower_char_dot: "lower_char c = CHR ''.'' \<longleftrightarrow> c = CHR ''.''"
  by (auto simp: lower_char_def ascii_upper_def ascii_lower_def split: option.splits if_splits)

lemma lower_ascii_no_dot: "CHR ''.'' \<notin> set s \<Longrightarrow> CHR ''.'' \<notin> set (lower_ascii s)"
proof
  assume a: "CHR ''.'' \<notin> set s" and b: "CHR ''.'' \<in> set (lower_ascii s)"
  from b obtain x where "x \<in> set s" "lower_char x = CHR ''.''"
    by (auto simp: lower_ascii_def)
  with a show False by (simp add: lower_char_dot)
qed

lemma lower_ascii_is_str_lower: "is_str_lower lower_ascii"
proof -
  have "lower_ascii (CHR ''.'' # s) = CHR ''.'' # lower_ascii s" for s
    using lower_char_dot [of "CHR ''.''"] by (simp add: lower_ascii_def)
  then show ?thesis by (simp add: is_str_lower_def lower_ascii_no_dot)
qed

lemma str_lower_ascii: "is_str_lower lc \<Longrightarrow> is_ascii s \<Longrightarrow> lc s = lower_ascii s"
  by (simp add: is_str_lower_def)

lemma str_lower_empty: "is_str_lower lc \<Longrightarrow> lc [] = []"
  using str_lower_ascii [of lc "[]"] by (simp add: is_ascii_def lower_ascii_def)

lemma lstrip_dot_ext:
  assumes "is_str_lower lc" "CHR ''.'' \<notin> set ext"
  shows "lstrip ''.'' (lc (CHR ''.'' # ext)) = lc ext"
proof -
  have a: "lc (CHR ''.'' # ext) = CHR ''.'' # lc ext" using assms(1) by (simp add: is_str_lower_def)
  have "CHR ''.'' \<notin> set (lc ext)" using assms by (simp add: is_str_lower_def)
  then have "dropWhile (\<lambda>c. c = CHR ''.'') (lc ext) = lc ext" by (cases "lc ext") auto
  with a show ?thesis by (simp add: lstrip_def)
qed

lemma bucket_of_split:
  assumes "is_str_lower lc"
    and "name p = stem @ CHR ''.'' # ext" "stem \<noteq> []" "ext \<noteq> []" "CHR ''.'' \<notin> set ext"
  shows "get_extension_subdir lc p = lc ext"
proof -
  have s: "suffix p = CHR ''.'' # ext" using assms(2-5) by (simp add: suffix_def suffix_of_split)
  have "lc (CHR ''.'' # ext) \<noteq> []" using assms(1) by (simp add: is_str_lower_def)
  then show ?thesis
    using s lstrip_dot_ext [OF assms(1,5)] by (simp add: get_extension_subdir_def Let_def)
qed

lemma bucket_no_suffix:
  assumes "is_str_lower lc"
    and "\<not> (\<exists>stem ext. name p = stem @ CHR ''.'' # ext \<and> stem \<noteq> [] \<and> ext \<noteq> []
             \<and> CHR ''.'' \<notin> set ext)"
  shows "get_extension_subdir lc p = ''no_extension''"
proof -
  have "suffix_of (name p) = []" using assms(2) suffix_of_nonempty by blast
  then show ?thesis
    using str_lower_empty [OF assms(1)] by (simp add: get_extension_subdir_def suffix_def)
qed

lemma name_child [simp]: "name (child p n) = n"
  by (simp add: name_def child_def)

lemma name_Path_snoc [simp]: "name (Path a (ds @ [n])) = n"
  by (simp add: name_def)

text \<open>
  C4. With \<^verbatim>\<open>str.lower\<close> for the lower-casing, the bucket of a path is the lower-cased
  extension of its name without the dot, where the extension is what follows the last dot
  of a name that has something other than dots on both sides of it, and \<open>no_extension\<close>
  for every other name. The function is total. In any directory, \<open>report.TXT\<close> goes to
  \<open>txt\<close>, \<open>README\<close> and \<open>.gitignore\<close> go to \<open>no_extension\<close>, and \<open>a.JPG\<close> and \<open>b.jpg\<close>
  both go to \<open>jpg\<close>.
\<close>

theorem bucket_is_lowercased_extension:
  assumes "is_str_lower lc"
  shows "(\<forall>stem ext. name p = stem @ CHR ''.'' # ext \<and> stem \<noteq> [] \<and> ext \<noteq> []
            \<and> CHR ''.'' \<notin> set ext
       \<longrightarrow> get_extension_subdir lc p = lc ext)
   \<and> ((\<nexists>stem ext. name p = stem @ CHR ''.'' # ext \<and> stem \<noteq> [] \<and> ext \<noteq> []
           \<and> CHR ''.'' \<notin> set ext)
       \<longrightarrow> get_extension_subdir lc p = ''no_extension'')
   \<and> get_extension_subdir lc (Path a (ds @ [''report.TXT''])) = ''txt''
   \<and> get_extension_subdir lc (Path a (ds @ [''README''])) = ''no_extension''
   \<and> get_extension_subdir lc (Path a (ds @ [''.gitignore''])) = ''no_extension''
   \<and> get_extension_subdir lc (Path a (ds @ [''a.JPG''])) = ''jpg''
   \<and> get_extension_subdir lc (Path a (ds @ [''b.jpg''])) = ''jpg''"
proof -
  have sfx: "suffix (Path a (ds @ [''report.TXT''])) = ''.TXT''"
    "suffix (Path a (ds @ [''README''])) = []"
    "suffix (Path a (ds @ [''.gitignore''])) = []"
    "suffix (Path a (ds @ [''a.JPG''])) = ''.JPG''"
    "suffix (Path a (ds @ [''b.jpg''])) = ''.jpg''"
    by (simp_all add: suffix_def suffix_of_def Let_def)
  have low: "lc ''.TXT'' = ''.txt''" "lc ''.JPG'' = ''.jpg''" "lc ''.jpg'' = ''.jpg''" "lc [] = []"
    using str_lower_ascii [OF assms]
    by (simp_all add: is_ascii_def lower_ascii_def lower_char_def ascii_upper_def ascii_lower_def)
  have ex: "get_extension_subdir lc (Path a (ds @ [''report.TXT''])) = ''txt''"
    "get_extension_subdir lc (Path a (ds @ [''README''])) = ''no_extension''"
    "get_extension_subdir lc (Path a (ds @ [''.gitignore''])) = ''no_extension''"
    "get_extension_subdir lc (Path a (ds @ [''a.JPG''])) = ''jpg''"
    "get_extension_subdir lc (Path a (ds @ [''b.jpg''])) = ''jpg''"
    unfolding get_extension_subdir_def sfx low by (simp_all add: lstrip_def)
  show ?thesis
    using bucket_of_split [OF assms, of p] bucket_no_suffix [OF assms, of p] ex by blast
qed

theorem bucket_is_lowercased_extension_witness:
  "is_str_lower lower_ascii
   \<and> name (Path ''/'' [''src'', ''report.TXT'']) = ''report'' @ CHR ''.'' # ''TXT''
   \<and> ''report'' \<noteq> [] \<and> ''TXT'' \<noteq> [] \<and> CHR ''.'' \<notin> set ''TXT''
   \<and> get_extension_subdir lower_ascii (Path ''/'' [''src'', ''report.TXT'']) = lower_ascii ''TXT''
   \<and> (\<nexists>stem ext. name (Path ''/'' [''README'']) = stem @ CHR ''.'' # ext \<and> stem \<noteq> []
          \<and> ext \<noteq> [] \<and> CHR ''.'' \<notin> set ext)
   \<and> get_extension_subdir lower_ascii (Path ''/'' [''README'']) = ''no_extension''"
proof -
  note l = lower_ascii_is_str_lower
  have n1: "name (Path ''/'' [''src'', ''report.TXT'']) = ''report'' @ CHR ''.'' # ''TXT''"
    by (simp add: name_def)
  have d1: "CHR ''.'' \<notin> set ''TXT''" by simp
  have n2: "\<nexists>stem ext. name (Path ''/'' [''README'']) = stem @ CHR ''.'' # ext \<and> stem \<noteq> []
          \<and> ext \<noteq> [] \<and> CHR ''.'' \<notin> set ext"
  proof
    assume "\<exists>stem ext. name (Path ''/'' [''README'']) = stem @ CHR ''.'' # ext \<and> stem \<noteq> []
          \<and> ext \<noteq> [] \<and> CHR ''.'' \<notin> set ext"
    then obtain stem ext where "''README'' = stem @ CHR ''.'' # ext" by (auto simp: name_def)
    then have "CHR ''.'' \<in> set ''README''" by (metis in_set_conv_decomp)
    then show False by simp
  qed
  from bucket_is_lowercased_extension [OF l, of "Path ''/'' [''src'', ''report.TXT'']"] n1 d1
  have r1: "get_extension_subdir lower_ascii (Path ''/'' [''src'', ''report.TXT''])
              = lower_ascii ''TXT''"
    by blast
  from bucket_is_lowercased_extension [OF l, of "Path ''/'' [''README'']"] n2
  have r2: "get_extension_subdir lower_ascii (Path ''/'' [''README'']) = ''no_extension''"
    by blast
  from l n1 d1 n2 r1 r2 show ?thesis by simp
qed

section \<open>Properties of the containment guard\<close>

lemma relative_to_only_ValueError: "relative_to c p = Inl e \<Longrightarrow> e = ValueError"
  by (auto simp: relative_to_def split: if_splits)

lemma take_is_prefix: "take (length xs) ys = xs \<longleftrightarrow> (\<exists>rest. ys = xs @ rest)"
  by (metis append_eq_conv_conj append_take_drop_id)

text \<open>
  C6. \<^verbatim>\<open>is_inside(dst, src)\<close> returns \<^verbatim>\<open>True\<close> exactly when \<open>dst\<close> is \<open>src\<close> or \<open>src\<close>
  extended by one or more components, and it never raises: whenever the relativity test
  raises, the answer is \<^verbatim>\<open>False\<close>.
\<close>

theorem is_inside_iff_equal_or_below:
  "is_inside dst src =
     Inr (dst = src \<or> (\<exists>rest. rest \<noteq> [] \<and> dst = Path (anchor src) (parts src @ rest)))
   \<and> (\<forall>e. relative_to dst src = Inl e \<longrightarrow> is_inside dst src = Inr False)"
proof -
  have a: "(anchor dst = anchor src \<and> take (length (parts src)) (parts dst) = parts src)
      \<longleftrightarrow> (dst = src \<or> (\<exists>rest. rest \<noteq> [] \<and> dst = Path (anchor src) (parts src @ rest)))"
    (is "?L \<longleftrightarrow> ?R")
  proof
    assume l: ?L
    then obtain rest where r: "parts dst = parts src @ rest"
      using take_is_prefix [of "parts src" "parts dst"] by blast
    show ?R
    proof (cases "rest = []")
      case True
      with l r have "dst = src" by (simp add: path.expand)
      then show ?thesis by simp
    next
      case False
      from l r have "dst = Path (anchor src) (parts src @ rest)" by (cases dst) simp
      with False show ?thesis by blast
    qed
  next
    assume ?R
    then show ?L by auto
  qed
  have b: "\<And>e. relative_to dst src = Inl e \<Longrightarrow> is_inside dst src = Inr False"
    using relative_to_only_ValueError [of dst src] by (auto simp: is_inside_def)
  have "is_inside dst src =
      Inr (anchor dst = anchor src \<and> take (length (parts src)) (parts dst) = parts src)"
    by (simp add: is_inside_def relative_to_def)
  with a b show ?thesis by simp
qed

theorem is_inside_iff_equal_or_below_witness:
  "relative_to (Path ''C:/'' [''d'']) (Path ''/'' [''d'']) = Inl ValueError
   \<and> is_inside (Path ''C:/'' [''d'']) (Path ''/'' [''d'']) = Inr False
   \<and> is_inside (Path ''/'' [''s'', ''d'']) (Path ''/'' [''s'']) = Inr True"
proof -
  have r: "relative_to (Path ''C:/'' [''d'']) (Path ''/'' [''d'']) = Inl ValueError"
    by (simp add: relative_to_def)
  have i: "\<exists>rest. rest \<noteq> [] \<and>
      Path ''/'' [''s'', ''d''] = Path (anchor (Path ''/'' [''s''])) (parts (Path ''/'' [''s'']) @ rest)"
    by (rule exI [of _ "[''d'']"]) simp
  from is_inside_iff_equal_or_below [of "Path ''C:/'' [''d'']" "Path ''/'' [''d'']"] r
  have f: "is_inside (Path ''C:/'' [''d'']) (Path ''/'' [''d'']) = Inr False" by blast
  from is_inside_iff_equal_or_below [of "Path ''/'' [''s'', ''d'']" "Path ''/'' [''s'']"] i
  have t: "is_inside (Path ''/'' [''s'', ''d'']) (Path ''/'' [''s'']) = Inr True"
    by (simp only: simp_thms)
  from r f t show ?thesis by simp
qed

section \<open>Properties of the walker\<close>

lemma extends_walk_refl: "extends_walk skip [] st st"
  by (simp add: extends_walk_def)

lemma extends_walk_trans:
  assumes "extends_walk skip r st st1" "extends_walk skip [] st1 st2"
  shows "extends_walk skip r st st2"
proof -
  from assms(1) obtain ws fs vs where a:
    "disk st1 = disk st" "stdout st1 = stdout st" "raised st1 = raised st"
    "ERRORS st1 = ERRORS st @ ws" "files_to_copy st1 = files_to_copy st @ fs"
    "visited st1 = visited st @ r @ vs"
    "\<forall>w\<in>set ws. site w = WalkDir \<or> site w = WalkItem"
    "\<forall>p\<in>set fs \<union> set vs. \<not> is_skipped (disk st) skip p"
    unfolding extends_walk_def by blast
  from assms(2) obtain ws' fs' vs' where b:
    "disk st2 = disk st1" "stdout st2 = stdout st1" "raised st2 = raised st1"
    "ERRORS st2 = ERRORS st1 @ ws'" "files_to_copy st2 = files_to_copy st1 @ fs'"
    "visited st2 = visited st1 @ vs'"
    "\<forall>w\<in>set ws'. site w = WalkDir \<or> site w = WalkItem"
    "\<forall>p\<in>set fs' \<union> set vs'. \<not> is_skipped (disk st1) skip p"
    unfolding extends_walk_def by auto
  have "ERRORS st2 = ERRORS st @ (ws @ ws')" "files_to_copy st2 = files_to_copy st @ (fs @ fs')"
    "visited st2 = visited st @ r @ (vs @ vs')"
    using a b by simp_all
  moreover have "\<forall>w\<in>set (ws @ ws'). site w = WalkDir \<or> site w = WalkItem"
    using a(7) b(7) by auto
  moreover have "\<forall>p\<in>set (fs @ fs') \<union> set (vs @ vs'). \<not> is_skipped (disk st) skip p"
    using a(8) b(8) a(1) by auto
  ultimately show ?thesis
    unfolding extends_walk_def using a(1,2,3) b(1,2,3) by metis
qed

lemma extends_walk_warn:
  "extends_walk skip [] st (warn (read_warning WalkItem e p) st)"
  "extends_walk skip [] st (warn (read_warning WalkDir e p) st)"
  by (simp_all add: extends_walk_def warn_def read_warning_def)

lemma extends_walk_file:
  "\<not> is_skipped (disk st) skip p \<Longrightarrow>
     extends_walk skip [] st (st\<lparr>files_to_copy := files_to_copy st @ [p]\<rparr>)"
  by (simp add: extends_walk_def)

lemma extends_walk_enter:
  assumes "\<not> is_skipped (disk st) skip p" "extends_walk skip [p] st st'"
  shows "extends_walk skip [] st st'"
proof -
  from assms(2) obtain ws fs vs where a:
    "disk st' = disk st" "stdout st' = stdout st" "raised st' = raised st"
    "ERRORS st' = ERRORS st @ ws" "files_to_copy st' = files_to_copy st @ fs"
    "visited st' = visited st @ [p] @ vs"
    "\<forall>w\<in>set ws. site w = WalkDir \<or> site w = WalkItem"
    "\<forall>p\<in>set fs \<union> set vs. \<not> is_skipped (disk st) skip p"
    unfolding extends_walk_def by blast
  have "visited st' = visited st @ [] @ (p # vs)" using a(6) by simp
  moreover have "\<forall>q\<in>set fs \<union> set (p # vs). \<not> is_skipped (disk st) skip q"
    using a(8) assms(1) by auto
  ultimately show ?thesis
    unfolding extends_walk_def using a(1,2,3,4,5,7) by blast
qed

lemma extends_walk_root:
  assumes "extends_walk skip [] (st\<lparr>visited := visited st @ [src]\<rparr>) st'"
  shows "extends_walk skip [src] st st'"
  using assms unfolding extends_walk_def by simp

lemma walk_extends:
  "collect_files_recursive k src skip st = Some st' \<Longrightarrow> extends_walk skip [src] st st'"
  "collect_entries k es skip st = Some st' \<Longrightarrow> extends_walk skip [] st st'"
proof (induction k src skip st and k es skip st arbitrary: st' and st'
    rule: collect_files_recursive_collect_entries.induct)
  case (1 src skip_dir st)
  then show ?case by simp
next
  case (2 k src skip_dir st)
  let ?st1 = "st\<lparr>visited := visited st @ [src]\<rparr>"
  show ?case
  proof (cases "iterdir (disk st) src")
    case (Inl e)
    with "2.prems" have "st' = warn (read_warning WalkDir e src) ?st1"
      by (simp add: Let_def)
    then show ?thesis
      using extends_walk_warn(2) [of skip_dir ?st1 e src] extends_walk_root by blast
  next
    case (Inr entries)
    with "2.prems" have "collect_entries k entries skip_dir ?st1 = Some st'"
      by (simp add: Let_def)
    with "2.IH" [OF refl Inr] show ?thesis using extends_walk_root by blast
  qed
next
  case (3 k skip_dir st)
  then show ?case by (simp add: extends_walk_refl)
next
  case (4 k item rest skip_dir st)
  show ?case
  proof (cases "is_skipped (disk st) skip_dir item")
    case True
    with "4.prems" "4.IH"(1) show ?thesis by simp
  next
    case ns: False
    show ?thesis
    proof (cases "is_dir (disk st) item")
      case (Inl e)
      with ns "4.prems" have
        "collect_entries k rest skip_dir (warn (read_warning WalkItem e item) st) = Some st'"
        by simp
      from "4.IH"(2) [OF ns Inl this] extends_walk_warn(1) [of skip_dir st e item]
      show ?thesis using extends_walk_trans by blast
    next
      case (Inr d)
      show ?thesis
      proof (cases d)
        case True
        with ns Inr "4.prems" obtain st1 where
          s1: "collect_files_recursive k item skip_dir st = Some st1"
          and s2: "collect_entries k rest skip_dir st1 = Some st'"
          by (auto split: option.splits)
        have "extends_walk skip_dir [item] st st1" using "4.IH"(3) ns Inr True s1 by blast
        with ns have "extends_walk skip_dir [] st st1" using extends_walk_enter by blast
        moreover have "extends_walk skip_dir [] st1 st'" using "4.IH"(4) ns Inr True s1 s2 by blast
        ultimately show ?thesis using extends_walk_trans by blast
      next
        case False
        show ?thesis
        proof (cases "is_file (disk st) item")
          case (Inl e)
          with ns Inr False "4.prems" have
            "collect_entries k rest skip_dir (warn (read_warning WalkItem e item) st) = Some st'"
            by simp
          then have "extends_walk skip_dir [] (warn (read_warning WalkItem e item) st) st'"
            using "4.IH"(5) ns Inr False Inl by blast
          with extends_walk_warn(1) [of skip_dir st e item]
          show ?thesis using extends_walk_trans by blast
        next
          case f: (Inr b)
          show ?thesis
          proof (cases b)
            case True
            with ns Inr False f "4.prems" have
              "collect_entries k rest skip_dir (st\<lparr>files_to_copy := files_to_copy st @ [item]\<rparr>) = Some st'"
              by simp
            then have "extends_walk skip_dir []
                (st\<lparr>files_to_copy := files_to_copy st @ [item]\<rparr>) st'"
              using "4.IH"(6) ns Inr False f True by blast
            with extends_walk_file [OF ns]
            show ?thesis using extends_walk_trans by blast
          next
            case nf: False
            with ns Inr False f "4.prems" have "collect_entries k rest skip_dir st = Some st'"
              by simp
            then show ?thesis using "4.IH"(7) ns Inr False f nf by blast
          qed
        qed
      qed
    qed
  qed
qed

text \<open>
  C9. The skip test compares resolved paths. When the walker runs with a skip directory,
  every file it collects and every directory it descends into (all but the root it was
  started on) has a resolved path other than that of the skip directory: an entry that
  resolves to the skip directory, a symbolic link to it included, is neither descended into
  nor collected.
\<close>

theorem walker_skips_resolved_skip_dir:
  assumes "collect_files_recursive k src (Some skip_dir) st = Some st'"
  shows "\<exists>fs vs. files_to_copy st' = files_to_copy st @ fs
           \<and> visited st' = visited st @ src # vs
           \<and> (\<forall>p\<in>set fs \<union> set vs. resolve (disk st) p \<noteq> resolve (disk st) skip_dir)"
  using walk_extends(1) [OF assms] unfolding extends_walk_def is_skipped_def by auto

lemma link_fs_walk:
  "collect_files_recursive (Suc (Suc 0)) (Path ''/'' [''s'']) (Some (Path ''/'' [''s'', ''d'']))
       (initial_state link_fs)
     = Some ((initial_state link_fs)
          \<lparr>files_to_copy := [Path ''/'' [''s'', ''a.txt'']], visited := [Path ''/'' [''s'']]\<rparr>)"
  by (simp add: initial_state_def link_fs_def no_fault_def iterdir_def is_dir_def is_file_def
      probe_def stat_def is_skipped_def resolve_def child_def Let_def)

theorem walker_skips_resolved_skip_dir_witness:
  "collect_files_recursive (Suc (Suc 0)) (Path ''/'' [''s'']) (Some (Path ''/'' [''s'', ''d'']))
       (initial_state link_fs)
     = Some ((initial_state link_fs)
          \<lparr>files_to_copy := [Path ''/'' [''s'', ''a.txt'']], visited := [Path ''/'' [''s'']]\<rparr>)
   \<and> resolve link_fs (Path ''/'' [''s'', ''l'']) = resolve link_fs (Path ''/'' [''s'', ''d''])
   \<and> (\<exists>fs vs. [Path ''/'' [''s'', ''a.txt'']] = [] @ fs
           \<and> [Path ''/'' [''s'']] = [] @ Path ''/'' [''s''] # vs
           \<and> (\<forall>p\<in>set fs \<union> set vs. resolve link_fs p \<noteq> resolve link_fs (Path ''/'' [''s'', ''d''])))"
proof -
  have r: "resolve link_fs (Path ''/'' [''s'', ''l'']) = resolve link_fs (Path ''/'' [''s'', ''d''])"
    by (simp add: resolve_def link_fs_def)
  from walker_skips_resolved_skip_dir [OF link_fs_walk] link_fs_walk r
  show ?thesis by (simp add: initial_state_def)
qed

section \<open>Properties of the program\<close>

text \<open>
  C10. When the source does not exist or is not a directory, \<^verbatim>\<open>main\<close> prints the fatal
  message and returns: the disk is the one it started with (the destination is not made),
  nothing was traversed or collected, and no warning was recorded.
\<close>

theorem missing_src_is_fatal_and_changes_nothing:
  assumes "exists F (resolve F src_arg) = Inr False \<or> is_dir F (resolve F src_arg) = Inr False"
  shows "main lc k F src_arg dst_arg =
           Some \<lparr>disk = F, ERRORS = [], stdout = [FatalSrc (resolve F src_arg)],
                 files_to_copy = [], raised = None, visited = []\<rparr>"
proof -
  have "src_missing F (resolve F src_arg) = Inr True"
    using assms
    by (auto simp: src_missing_def exists_def is_dir_def probe_def split: sum.splits if_splits bool.splits)
  then show ?thesis by (simp add: main_def initial_state_def emit_def Let_def)
qed

theorem missing_src_is_fatal_and_changes_nothing_witness:
  "exists empty_fs (resolve empty_fs (Path ''/'' [''s''])) = Inr False
   \<and> main lower_ascii 0 empty_fs (Path ''/'' [''s'']) (Path ''/'' [''d'']) =
           Some \<lparr>disk = empty_fs, ERRORS = [],
                 stdout = [FatalSrc (resolve empty_fs (Path ''/'' [''s'']))],
                 files_to_copy = [], raised = None, visited = []\<rparr>
   \<and> nodes empty_fs (Path ''/'' [''d'']) = None"
proof -
  have e: "exists empty_fs (resolve empty_fs (Path ''/'' [''s''])) = Inr False"
    by (simp add: exists_def probe_def stat_def empty_fs_def no_fault_def resolve_def
        ignore_error_def)
  have n: "nodes empty_fs (Path ''/'' [''d'']) = None" by (simp add: empty_fs_def)
  from missing_src_is_fatal_and_changes_nothing [of empty_fs "Path ''/'' [''s'']" lower_ascii 0 "Path ''/'' [''d'']"] e n
  show ?thesis by simp
qed

section \<open>Properties of the renderer\<close>

lemma extends_display_refl: "extends_display st st"
  by (simp add: extends_display_def)

lemma extends_display_trans:
  assumes "extends_display st st1" "extends_display st1 st2"
  shows "extends_display st st2"
proof -
  from assms(1) obtain evs ws where a:
    "disk st1 = disk st" "files_to_copy st1 = files_to_copy st" "visited st1 = visited st"
    "stdout st1 = stdout st @ evs" "ERRORS st1 = ERRORS st @ ws"
    "\<forall>e\<in>set evs. is_tree_event e" "\<forall>w\<in>set ws. site w = Render"
    unfolding extends_display_def by blast
  from assms(2) obtain evs' ws' where b:
    "disk st2 = disk st1" "files_to_copy st2 = files_to_copy st1" "visited st2 = visited st1"
    "stdout st2 = stdout st1 @ evs'" "ERRORS st2 = ERRORS st1 @ ws'"
    "\<forall>e\<in>set evs'. is_tree_event e" "\<forall>w\<in>set ws'. site w = Render"
    unfolding extends_display_def by blast
  have "stdout st2 = stdout st @ (evs @ evs')" "ERRORS st2 = ERRORS st @ (ws @ ws')"
    using a b by simp_all
  moreover have "\<forall>e\<in>set (evs @ evs'). is_tree_event e" using a(6) b(6) by auto
  moreover have "\<forall>w\<in>set (ws @ ws'). site w = Render" using a(7) b(7) by auto
  ultimately show ?thesis
    unfolding extends_display_def using a(1,2,3) b(1,2,3) by metis
qed

lemma extends_display_emit:
  "is_tree_event e \<Longrightarrow> extends_display st (emit e st)"
  by (simp add: extends_display_def emit_def)

lemma extends_display_raise: "extends_display st (st\<lparr>raised := r\<rparr>)"
  by (simp add: extends_display_def)

lemma extends_display_inaccessible:
  "extends_display st (emit (TreeInaccessible i) (warn (Warning Render NoAccess p) st))"
  by (simp add: extends_display_def emit_def warn_def is_tree_event_def)

lemma display_extends:
  "display_tree k p indent prefix st = Some st' \<Longrightarrow> extends_display st st'"
  "display_entries k es n i subindent st = Some st' \<Longrightarrow> extends_display st st'"
proof (induction k p indent prefix st and k es n i subindent st arbitrary: st' and st'
    rule: display_tree_display_entries.induct)
  case (1 p indent prefix st)
  then show ?case by simp
next
  case (2 k p indent prefix st)
  let ?st1 = "emit (TreeDir indent prefix (name p)) st"
  let ?sub = "indent @ (if prefix \<noteq> NoGlyph then ''    '' else [])"
  have e1: "extends_display st ?st1" by (simp add: extends_display_emit is_tree_event_def)
  have d1: "disk ?st1 = disk st" by (simp add: emit_def)
  show ?case
  proof (cases "is_dir (disk st) p")
    case (Inl e)
    with "2.prems" show ?thesis by (auto simp: extends_display_raise)
  next
    case (Inr d)
    show ?thesis
    proof (cases d)
      case True
      show ?thesis
      proof (cases "sorted_entries (disk ?st1) p")
        case (Inl e)
        with Inr True "2.prems" have
          "st' = emit (TreeInaccessible ?sub) (warn (Warning Render NoAccess p) ?st1)"
          by (simp add: Let_def)
        then show ?thesis using e1 extends_display_inaccessible extends_display_trans by blast
      next
        case es: (Inr entries)
        with Inr True "2.prems" have
          "display_entries k entries (length entries) 0 ?sub ?st1 = Some st'"
          by (simp add: Let_def)
        then have "extends_display ?st1 st'" using "2.IH" Inr True es by blast
        with e1 show ?thesis using extends_display_trans by blast
      qed
    next
      case False
      with Inr "2.prems" have "st' = emit (TreeFile indent prefix (name p) (ext_color p)) st"
        by simp
      then show ?thesis by (simp add: extends_display_emit is_tree_event_def)
    qed
  qed
next
  case (3 k n i subindent st)
  then show ?case by (simp add: extends_display_refl)
next
  case (4 k item rest n i subindent st)
  let ?g = "if int i = int n - 1 then Corner else Tee"
  from "4.prems" obtain st1 where
    s1: "display_tree k item subindent ?g st = Some st1"
    by (auto split: option.splits)
  then have x1: "extends_display st st1" using "4.IH"(1) by blast
  show ?case
  proof (cases "raised st1 \<noteq> None")
    case True
    with s1 "4.prems" have "st' = st1" by simp
    with x1 show ?thesis by simp
  next
    case False
    with s1 "4.prems" have "display_entries k rest n (Suc i) subindent st1 = Some st'" by simp
    then have "extends_display st1 st'" using "4.IH"(2) s1 False by blast
    with x1 show ?thesis using extends_display_trans by blast
  qed
qed

lemma display_tree_first_line:
  assumes "display_tree k p indent prefix st = Some st'" "raised st' = None"
  shows "\<exists>c evs. stdout st' = stdout st @ c # evs \<and> line_of c = Some (indent, prefix, name p)"
proof (cases k)
  case 0
  with assms show ?thesis by simp
next
  case (Suc j)
  let ?st1 = "emit (TreeDir indent prefix (name p)) st"
  let ?sub = "indent @ (if prefix \<noteq> NoGlyph then ''    '' else [])"
  show ?thesis
  proof (cases "is_dir (disk st) p")
    case (Inl e)
    with assms Suc show ?thesis by auto
  next
    case (Inr d)
    show ?thesis
    proof (cases d)
      case True
      have l: "line_of (TreeDir indent prefix (name p)) = Some (indent, prefix, name p)"
        by (simp add: line_of_def)
      show ?thesis
      proof (cases "sorted_entries (disk ?st1) p")
        case (Inl e)
        with Inr True assms Suc have
          "st' = emit (TreeInaccessible ?sub) (warn (Warning Render NoAccess p) ?st1)"
          by (simp add: Let_def)
        then have "stdout st' = stdout st @ TreeDir indent prefix (name p) # [TreeInaccessible ?sub]"
          by (simp add: emit_def warn_def)
        with l show ?thesis by blast
      next
        case es: (Inr entries)
        with Inr True assms Suc have
          "display_entries j entries (length entries) 0 ?sub ?st1 = Some st'"
          by (simp add: Let_def)
        from display_extends(2) [OF this] obtain evs where "stdout st' = stdout ?st1 @ evs"
          unfolding extends_display_def by blast
        then have "stdout st' = stdout st @ TreeDir indent prefix (name p) # evs"
          by (simp add: emit_def)
        with l show ?thesis by blast
      qed
    next
      case False
      with Inr assms Suc have "st' = emit (TreeFile indent prefix (name p) (ext_color p)) st"
        by simp
      then have "stdout st' = stdout st @ TreeFile indent prefix (name p) (ext_color p) # []"
        by (simp add: emit_def)
      moreover have "line_of (TreeFile indent prefix (name p) (ext_color p)) = Some (indent, prefix, name p)"
        by (simp add: line_of_def)
      ultimately show ?thesis by blast
    qed
  qed
qed

lemma display_entries_blocks:
  assumes "display_entries k items n i subindent st = Some st'" "raised st' = None"
  shows "\<exists>blocks. length blocks = length items \<and> stdout st' = stdout st @ concat blocks
           \<and> (\<forall>j<length items. \<exists>c evs. blocks ! j = c # evs
                 \<and> line_of c = Some (subindent, (if int (i + j) = int n - 1 then Corner else Tee),
                                     name (items ! j)))"
  using assms
proof (induction items arbitrary: i st)
  case Nil
  then have "stdout st' = stdout st @ concat []" by simp
  then show ?case by (metis length_0_conv less_nat_zero_code list.size(3))
next
  case (Cons item rest)
  let ?g = "if int i = int n - 1 then Corner else Tee"
  from Cons.prems obtain st1 where
    s1: "display_tree k item subindent ?g st = Some st1"
    by (auto split: option.splits)
  have r1: "raised st1 = None"
  proof (rule ccontr)
    assume "raised st1 \<noteq> None"
    with s1 Cons.prems(1) have "st' = st1" by simp
    with Cons.prems(2) \<open>raised st1 \<noteq> None\<close> show False by simp
  qed
  with s1 Cons.prems(1) have s2: "display_entries k rest n (Suc i) subindent st1 = Some st'"
    by simp
  from display_tree_first_line [OF s1 r1] obtain c evs where
    b1: "stdout st1 = stdout st @ c # evs" "line_of c = Some (subindent, ?g, name item)"
    by blast
  from Cons.IH [OF s2 Cons.prems(2)] obtain blocks where
    b2: "length blocks = length rest" "stdout st' = stdout st1 @ concat blocks"
    "\<forall>j<length rest. \<exists>c evs. blocks ! j = c # evs
        \<and> line_of c = Some (subindent, (if int (Suc i + j) = int n - 1 then Corner else Tee),
                            name (rest ! j))"
    by blast
  let ?bs = "(c # evs) # blocks"
  have "length ?bs = length (item # rest)" using b2(1) by simp
  moreover have "stdout st' = stdout st @ concat ?bs" using b1(1) b2(2) by simp
  moreover have "\<forall>j<length (item # rest). \<exists>c' evs'. ?bs ! j = c' # evs'
        \<and> line_of c' = Some (subindent, (if int (i + j) = int n - 1 then Corner else Tee),
                            name ((item # rest) ! j))"
  proof (intro allI impI)
    fix j assume "j < length (item # rest)"
    show "\<exists>c' evs'. ?bs ! j = c' # evs'
        \<and> line_of c' = Some (subindent, (if int (i + j) = int n - 1 then Corner else Tee),
                            name ((item # rest) ! j))"
    proof (cases j)
      case 0
      then show ?thesis using b1(2) by simp
    next
      case (Suc m)
      with \<open>j < length (item # rest)\<close> have "m < length rest" by simp
      with b2(3) Suc show ?thesis by simp
    qed
  qed
  ultimately show ?case by blast
qed

lemma sort_keys_are_entry_keys:
  "sort_keys F es = Inr ks \<Longrightarrow> ks = map (entry_key F) es"
  by (induction es arbitrary: ks) (auto simp: entry_key_def split: sum.splits)

lemma sorted_entries_sorted:
  assumes "sorted_entries F p = Inr entries"
  shows "\<exists>es. iterdir F p = Inr es \<and> mset entries = mset es"
    and "sorted (map (entry_key F) entries)"
proof -
  from assms obtain es ks where
    h: "iterdir F p = Inr es" "sort_keys F es = Inr ks"
    "entries = map snd (sort_key fst (zip ks es))"
    by (auto simp: sorted_entries_def split: sum.splits)
  let ?zs = "zip ks es"
  have ks: "ks = map (entry_key F) es" using h(2) by (rule sort_keys_are_entry_keys)
  then have zs: "?zs = map (\<lambda>x. (entry_key F x, x)) es"
    by (simp add: zip_map1 zip_same_conv_map)
  have "mset entries = mset (map snd ?zs)"
    using h(3) by simp
  also have "\<dots> = mset es" using zs by (simp add: comp_def)
  finally show "\<exists>es. iterdir F p = Inr es \<and> mset entries = mset es" using h(1) by blast
  have "\<forall>z\<in>set (sort_key fst ?zs). fst z = entry_key F (snd z)"
    using zs by auto
  then have "map (entry_key F) entries = map fst (sort_key fst ?zs)"
    using h(3) by (simp add: comp_def)
  then show "sorted (map (entry_key F) entries)" by (simp add: sorted_sort_key)
qed

lemma tree_fs_sorted:
  "sorted_entries tree_fs (Path ''/'' [''d'']) =
     Inr [Path ''/'' [''d'', ''a''], Path ''/'' [''d'', ''z''], Path ''/'' [''d'', ''A.txt''],
          Path ''/'' [''d'', ''b.txt'']]"
  by (simp add: sorted_entries_def iterdir_def tree_fs_def no_fault_def is_file_def probe_def
      stat_def child_def name_def less_eq_prod_def less_prod_def less_eq_char_def less_char_def)

lemma dir_is_no_file: "is_dir F x = Inr True \<Longrightarrow> is_file F x \<noteq> Inr True"
  by (auto simp: is_dir_def is_file_def probe_def node.disc_eq_case
      split: sum.splits if_splits node.splits)

lemma sorted_keys_groups:
  assumes "sorted (map (entry_key F) entries)" "i < j" "j < length entries"
  shows "(is_file F (entries ! i) = Inr True \<longrightarrow>
            is_file F (entries ! j) = Inr True \<and> is_dir F (entries ! j) \<noteq> Inr True)
       \<and> ((is_file F (entries ! i) = Inr True) = (is_file F (entries ! j) = Inr True) \<longrightarrow>
            name (entries ! i) \<le> name (entries ! j))"
proof -
  have "map (entry_key F) entries ! i \<le> map (entry_key F) entries ! j"
    using assms by (simp add: sorted_iff_nth_mono)
  then have le: "entry_key F (entries ! i) \<le> entry_key F (entries ! j)"
    using assms by simp
  then show ?thesis
    using dir_is_no_file [of F "entries ! j"]
    by (auto simp: entry_key_def less_eq_prod_def)
qed


lemma tree_fs_display:
  "display_tree (Suc (Suc (Suc 0))) (Path ''/'' [''d'']) [] NoGlyph (initial_state tree_fs) =
     Some ((initial_state tree_fs)\<lparr>stdout :=
       [TreeDir [] NoGlyph ''d'',
        TreeDir [] Tee ''a'',
        TreeFile ''    '' Corner ''n.log'' YELLOW,
        TreeDir [] Tee ''z'',
        TreeFile [] Tee ''A.txt'' GREEN,
        TreeFile [] Corner ''b.txt'' GREEN]\<rparr>)"
  by (simp add: initial_state_def sorted_entries_def iterdir_def tree_fs_def no_fault_def
      is_file_def is_dir_def probe_def stat_def child_def name_def less_eq_prod_def less_prod_def
      less_eq_char_def less_char_def emit_def ext_color_def EXT_COLOR_MAP_def
      DEFAULT_FILE_COLOR_def suffix_def suffix_of_def lstrip_def Let_def)


section \<open>Properties of the copy engine\<close>

lemma keeps_files_refl: "keeps_files F F"
  by (simp add: keeps_files_def)

lemma keeps_files_trans: "keeps_files F F1 \<Longrightarrow> keeps_files F1 F2 \<Longrightarrow> keeps_files F F2"
  by (simp add: keeps_files_def)

lemma file_node_Some: "file_node F q = Some n \<longleftrightarrow> (nodes F q = Some n \<and> is_File n)"
  by (auto simp: file_node_def split: option.splits node.splits)

lemma os_mkdir_keeps:
  assumes "os_mkdir F p = Inr F'"
  shows "keeps_files F F'"
proof -
  let ?q = "canon F p"
  from assms obtain ns where
    h: "nodes F ?q = None" "nodes F (parent ?q) = Some (Dir ns)"
    "F' = F\<lparr>nodes := (nodes F)(parent ?q \<mapsto> Dir (ns @ [name ?q]), ?q \<mapsto> Dir [])\<rparr>"
    by (auto simp: os_mkdir_def Let_def split: option.splits node.splits)
  have "file_node F' x = file_node F x" for x
    using h by (auto simp: file_node_def)
  with h(3) show ?thesis by (simp add: keeps_files_def)
qed

lemma mkdir_exist_ok_keeps:
  assumes "mkdir_exist_ok F p = Inr F'"
  shows "keeps_files F F'"
proof (cases "os_mkdir F p")
  case (Inl e)
  with assms have "F' = F"
    by (auto simp: mkdir_exist_ok_def split: if_splits sum.splits bool.splits)
  then show ?thesis by (simp add: keeps_files_refl)
next
  case (Inr F1)
  with assms have "F' = F1" by (simp add: mkdir_exist_ok_def)
  with Inr show ?thesis using os_mkdir_keeps by blast
qed

lemma mkdir_keeps: "mkdir F p = (F', r) \<Longrightarrow> keeps_files F F'"
proof (induction F p arbitrary: F' r rule: mkdir.induct)
  case (1 F p)
  show ?case
  proof (cases "os_mkdir F p")
    case (Inr F1)
    with "1.prems" have "F' = F1" by (simp add: mkdir.simps)
    with Inr show ?thesis using os_mkdir_keeps by blast
  next
    case (Inl e)
    show ?thesis
    proof (cases "e = FileNotFoundError")
      case False
      with Inl "1.prems" have "F' = F"
        by (auto simp: mkdir.simps split: sum.splits bool.splits)
      then show ?thesis by (simp add: keeps_files_refl)
    next
      case True
      show ?thesis
      proof (cases "parent p = p")
        case pp: True
        with Inl True "1.prems" have "F' = F" by (simp add: mkdir.simps)
        then show ?thesis by (simp add: keeps_files_refl)
      next
        case pp: False
        obtain F1 r1 where m: "mkdir F (parent p) = (F1, r1)" by (cases "mkdir F (parent p)")
        have k1: "keeps_files F F1" using "1.IH" Inl True pp m by blast
        show ?thesis
        proof (cases r1)
          case (Some e1)
          with Inl True pp m "1.prems" have "F' = F1" by (simp add: mkdir.simps)
          with k1 show ?thesis by simp
        next
          case None
          show ?thesis
          proof (cases "mkdir_exist_ok F1 p")
            case x: (Inl e2)
            with None Inl True pp m "1.prems" have "F' = F1" by (simp add: mkdir.simps)
            with k1 show ?thesis by simp
          next
            case x: (Inr F2)
            with None Inl True pp m "1.prems" have "F' = F2" by (simp add: mkdir.simps)
            with x k1 show ?thesis using mkdir_exist_ok_keeps keeps_files_trans by blast
          qed
        qed
      qed
    qed
  qed
qed

lemma open_write_effect:
  assumes "open_write F t = Inr F'"
  shows "canon F' = canon F" "fault F' = fault F"
    "\<forall>q. q \<noteq> canon F t \<longrightarrow> file_node F' q = file_node F q"
    "\<forall>q ns. nodes F q = Some (Dir ns) \<longrightarrow> (\<exists>ns'. nodes F' q = Some (Dir ns'))"
    "\<forall>ns. nodes F' (canon F t) \<noteq> Some (Dir ns)"
proof -
  let ?q = "canon F t" and ?n = "File [] (clock F)"
  from assms have
    h: "(\<exists>c m. nodes F ?q = Some (File c m) \<and> F' = F\<lparr>nodes := (nodes F)(?q \<mapsto> ?n)\<rparr>)
       \<or> (\<exists>ns. nodes F ?q = None \<and> nodes F (parent ?q) = Some (Dir ns)
            \<and> F' = F\<lparr>nodes := (nodes F)(parent ?q \<mapsto> Dir (ns @ [name ?q]), ?q \<mapsto> ?n)\<rparr>)"
    by (auto simp: open_write_def Let_def split: option.splits node.splits)
  from h show "canon F' = canon F" "fault F' = fault F" by auto
  from h show "\<forall>q. q \<noteq> canon F t \<longrightarrow> file_node F' q = file_node F q"
    by (auto simp: file_node_def)
  from h show "\<forall>q ns. nodes F q = Some (Dir ns) \<longrightarrow> (\<exists>ns'. nodes F' q = Some (Dir ns'))"
    by auto
  from h show "\<forall>ns. nodes F' (canon F t) \<noteq> Some (Dir ns)" by auto
qed

lemma put_effect:
  "canon (put F t c m) = canon F" "fault (put F t c m) = fault F"
  "nodes (put F t c m) (canon F t) = Some (File c m)"
  "q \<noteq> canon F t \<Longrightarrow> nodes (put F t c m) q = nodes F q"
  by (simp_all add: put_def)

text \<open>
  What a call of \<open>copy2\<close> that got as far as opening the destination \<open>t\<close> leaves: the
  file at \<open>t\<close>, and every other file as it was.
\<close>

lemma copy2_opened:
  assumes o: "open_write F t = Inr F1" and f: "F' = put F1 t c m"
    and t: "t = (if isdir_quiet F t0 then child t0 (name s) else t0)"
  shows "canon F' = canon F" "fault F' = fault F" "nodes F' (canon F t) = Some (File c m)"
    "\<forall>q. q \<noteq> canon F t \<longrightarrow> file_node F' q = file_node F q"
    "t = t0 \<or> t = child t0 (name s) \<and> (\<exists>ns. nodes F' (canon F t0) = Some (Dir ns))"
proof -
  note e = open_write_effect [OF o]
  show "canon F' = canon F" "fault F' = fault F" using e(1,2) f by (simp_all add: put_effect)
  show "nodes F' (canon F t) = Some (File c m)"
    using f e(1) put_effect(3) [of F1 t c m] by simp
  show "\<forall>q. q \<noteq> canon F t \<longrightarrow> file_node F' q = file_node F q"
  proof (intro allI impI)
    fix q assume q: "q \<noteq> canon F t"
    then have "nodes F' q = nodes F1 q" using f e(1) put_effect(4) [of q F1 t c m] by simp
    then have "file_node F' q = file_node F1 q" by (simp add: file_node_def)
    with e(3) q show "file_node F' q = file_node F q" by simp
  qed
  show "t = t0 \<or> t = child t0 (name s) \<and> (\<exists>ns. nodes F' (canon F t0) = Some (Dir ns))"
  proof (cases "isdir_quiet F t0")
    case False
    with t show ?thesis by simp
  next
    case True
    then obtain ns where "nodes F (canon F t0) = Some (Dir ns)"
      by (auto simp: isdir_quiet_def stat_def split: option.splits sum.splits node.splits)
    with e(4) obtain ns' where d: "nodes F1 (canon F t0) = Some (Dir ns')" by blast
    with e(5) have "canon F t0 \<noteq> canon F t" by auto
    then have "nodes F' (canon F t0) = nodes F1 (canon F t0)"
      using f e(1) put_effect(4) [of "canon F t0" F1 t c m] by simp
    with d True t show ?thesis by simp
  qed
qed

lemma copy2_shape:
  assumes "copy2 F s t0 = (F', r)"
  shows "(F' = F \<and> r \<noteq> None)
     \<or> (\<exists>c m F1 x y. nodes F (canon F s) = Some (File c m)
           \<and> open_write F (if isdir_quiet F t0 then child t0 (name s) else t0) = Inr F1
           \<and> F' = put F1 (if isdir_quiet F t0 then child t0 (name s) else t0) x y
           \<and> (r = None \<longrightarrow> x = c \<and> y = m)
           \<and> (r \<noteq> None \<longrightarrow> \<not> clean_failures F))"
proof -
  define t where "t = (if isdir_quiet F t0 then child t0 (name s) else t0)"
  have c2: "copy2 F s t0 =
     (if samefile_quiet F s t then (F, Some SameFileError)
      else (case read_file F s of
              Inl e \<Rightarrow> (F, Some e)
            | Inr (c, m) \<Rightarrow>
                (case open_write F t of
                   Inl e \<Rightarrow> (F, Some e)
                 | Inr F1 \<Rightarrow>
                     (case fault F OpData t of
                        Some e \<Rightarrow> (put F1 t (take (written F t) c) (clock F), Some e)
                      | None \<Rightarrow>
                          (case fault F OpUtime t of
                             Some e \<Rightarrow> (put F1 t c (clock F), Some e)
                           | None \<Rightarrow> (put F1 t c m, fault F OpChmod t))))))"
    unfolding copy2_def Let_def t_def by (rule refl)
  have "(F' = F \<and> r \<noteq> None)
     \<or> (\<exists>c m F1 x y. nodes F (canon F s) = Some (File c m)
           \<and> open_write F t = Inr F1 \<and> F' = put F1 t x y
           \<and> (r = None \<longrightarrow> x = c \<and> y = m)
           \<and> (r \<noteq> None \<longrightarrow> \<not> clean_failures F))"
  proof (cases "samefile_quiet F s t")
    case True
    with assms c2 have "F' = F" "r = Some SameFileError" by simp_all
    then show ?thesis by simp
  next
    case ns: False
    show ?thesis
    proof (cases "read_file F s")
      case (Inl e)
      with ns assms c2 have "F' = F" "r = Some e" by simp_all
      then show ?thesis by simp
    next
      case (Inr cm)
      obtain c m where cm: "cm = (c, m)" by (cases cm)
      with Inr have src: "nodes F (canon F s) = Some (File c m)"
        by (auto simp: read_file_def split: option.splits node.splits)
      show ?thesis
      proof (cases "open_write F t")
        case (Inl e)
        with ns Inr cm assms c2 have "F' = F" "r = Some e" by simp_all
        then show ?thesis by simp
      next
        case o: (Inr F1)
        show ?thesis
        proof (cases "fault F OpData t")
          case (Some e)
          with ns Inr cm o assms c2 have "F' = put F1 t (take (written F t) c) (clock F)"
            "r = Some e"
            by simp_all
          moreover have "\<not> clean_failures F" using Some by (auto simp: clean_failures_def)
          ultimately show ?thesis using src o by blast
        next
          case d: None
          show ?thesis
          proof (cases "fault F OpUtime t")
            case (Some e)
            with d ns Inr cm o assms c2 have "F' = put F1 t c (clock F)" "r = Some e"
              by simp_all
            moreover have "\<not> clean_failures F" using Some by (auto simp: clean_failures_def)
            ultimately show ?thesis using src o by blast
          next
            case u: None
            with d ns Inr cm o assms c2 have f: "F' = put F1 t c m" "r = fault F OpChmod t"
              by simp_all
            have "r \<noteq> None \<longrightarrow> \<not> clean_failures F"
              using f(2) by (auto simp: clean_failures_def)
            with f(1) show ?thesis using src o by blast
          qed
        qed
      qed
    qed
  qed
  then show ?thesis unfolding t_def .
qed

lemma copy2_effect:
  assumes "copy2 F s t0 = (F', r)"
  shows "canon F' = canon F \<and> fault F' = fault F"
    and "r = None \<Longrightarrow> \<exists>t c m. nodes F (canon F s) = Some (File c m)
          \<and> nodes F' (canon F t) = Some (File c m)
          \<and> (t = t0 \<or> t = child t0 (name s) \<and> (\<exists>ns. nodes F' (canon F t0) = Some (Dir ns)))
          \<and> (\<forall>q. q \<noteq> canon F t \<longrightarrow> file_node F' q = file_node F q)"
    and "r \<noteq> None \<Longrightarrow> (\<forall>q. file_node F' q = file_node F q)
          \<or> (\<exists>t. (t = t0 \<or> t = child t0 (name s)) \<and> file_node F' (canon F t) \<noteq> None
                \<and> (\<forall>q. q \<noteq> canon F t \<longrightarrow> file_node F' q = file_node F q))"
    and "r \<noteq> None \<Longrightarrow> clean_failures F \<Longrightarrow> \<forall>q. file_node F' q = file_node F q"
proof -
  let ?t = "if isdir_quiet F t0 then child t0 (name s) else t0"
  from copy2_shape [OF assms] consider
    (same) "F' = F" "r \<noteq> None"
    | (opened) c m F1 x y where "nodes F (canon F s) = Some (File c m)"
        "open_write F ?t = Inr F1" "F' = put F1 ?t x y"
        "r = None \<longrightarrow> x = c \<and> y = m" "r \<noteq> None \<longrightarrow> \<not> clean_failures F"
    by blast
  then have all: "(canon F' = canon F \<and> fault F' = fault F)
    \<and> (r = None \<longrightarrow> (\<exists>t c m. nodes F (canon F s) = Some (File c m)
          \<and> nodes F' (canon F t) = Some (File c m)
          \<and> (t = t0 \<or> t = child t0 (name s) \<and> (\<exists>ns. nodes F' (canon F t0) = Some (Dir ns)))
          \<and> (\<forall>q. q \<noteq> canon F t \<longrightarrow> file_node F' q = file_node F q)))
    \<and> (r \<noteq> None \<longrightarrow> (\<forall>q. file_node F' q = file_node F q)
          \<or> (\<exists>t. (t = t0 \<or> t = child t0 (name s)) \<and> file_node F' (canon F t) \<noteq> None
                \<and> (\<forall>q. q \<noteq> canon F t \<longrightarrow> file_node F' q = file_node F q)))
    \<and> (r \<noteq> None \<longrightarrow> clean_failures F \<longrightarrow> (\<forall>q. file_node F' q = file_node F q))"
  proof cases
    case same
    then show ?thesis by auto
  next
    case opened
    note e = copy2_opened [OF opened(2,3) refl]
    have fn: "file_node F' (canon F ?t) \<noteq> None" using e(3) by (simp add: file_node_def)
    have ok: "r = None \<longrightarrow> (\<exists>t c m. nodes F (canon F s) = Some (File c m)
          \<and> nodes F' (canon F t) = Some (File c m)
          \<and> (t = t0 \<or> t = child t0 (name s) \<and> (\<exists>ns. nodes F' (canon F t0) = Some (Dir ns)))
          \<and> (\<forall>q. q \<noteq> canon F t \<longrightarrow> file_node F' q = file_node F q))"
    proof
      assume "r = None"
      with opened(4) have xy: "x = c" "y = m" by simp_all
      show "\<exists>t c m. nodes F (canon F s) = Some (File c m)
          \<and> nodes F' (canon F t) = Some (File c m)
          \<and> (t = t0 \<or> t = child t0 (name s) \<and> (\<exists>ns. nodes F' (canon F t0) = Some (Dir ns)))
          \<and> (\<forall>q. q \<noteq> canon F t \<longrightarrow> file_node F' q = file_node F q)"
        apply (rule exI [of _ ?t], rule exI [of _ c], rule exI [of _ m])
        using opened(1) e(3,4,5) xy by simp
    qed
    have bad: "r \<noteq> None \<longrightarrow> (\<forall>q. file_node F' q = file_node F q)
          \<or> (\<exists>t. (t = t0 \<or> t = child t0 (name s)) \<and> file_node F' (canon F t) \<noteq> None
                \<and> (\<forall>q. q \<noteq> canon F t \<longrightarrow> file_node F' q = file_node F q))"
    proof
      assume "r \<noteq> None"
      have "\<exists>t. (t = t0 \<or> t = child t0 (name s)) \<and> file_node F' (canon F t) \<noteq> None
                \<and> (\<forall>q. q \<noteq> canon F t \<longrightarrow> file_node F' q = file_node F q)"
        apply (rule exI [of _ ?t])
        using fn e(4,5) by auto
      then show "(\<forall>q. file_node F' q = file_node F q)
          \<or> (\<exists>t. (t = t0 \<or> t = child t0 (name s)) \<and> file_node F' (canon F t) \<noteq> None
                \<and> (\<forall>q. q \<noteq> canon F t \<longrightarrow> file_node F' q = file_node F q))" ..
    qed
    from e(1,2) ok bad opened(5) show ?thesis by blast
  qed
  from all show "canon F' = canon F \<and> fault F' = fault F" by blast
  from all show "r = None \<Longrightarrow> \<exists>t c m. nodes F (canon F s) = Some (File c m)
          \<and> nodes F' (canon F t) = Some (File c m)
          \<and> (t = t0 \<or> t = child t0 (name s) \<and> (\<exists>ns. nodes F' (canon F t0) = Some (Dir ns)))
          \<and> (\<forall>q. q \<noteq> canon F t \<longrightarrow> file_node F' q = file_node F q)" by blast
  from all show "r \<noteq> None \<Longrightarrow> (\<forall>q. file_node F' q = file_node F q)
          \<or> (\<exists>t. (t = t0 \<or> t = child t0 (name s)) \<and> file_node F' (canon F t) \<noteq> None
                \<and> (\<forall>q. q \<noteq> canon F t \<longrightarrow> file_node F' q = file_node F q))" by blast
  from all show "r \<noteq> None \<Longrightarrow> clean_failures F \<Longrightarrow> \<forall>q. file_node F' q = file_node F q"
    by blast
qed

lemma copy_one_frame:
  "stdout (copy_one lc dst f st) = stdout st"
  "files_to_copy (copy_one lc dst f st) = files_to_copy st"
  "raised (copy_one lc dst f st) = raised st"
  "visited (copy_one lc dst f st) = visited st"
  by (simp_all add: copy_one_def Let_def warn_def split: prod.splits option.splits sum.splits)

lemma copy_one_effect:
  fixes lc dst f st
  defines "F \<equiv> disk st" and "st' \<equiv> copy_one lc dst f st" and "T \<equiv> target_file lc dst f"
  shows "canon (disk st') = canon F \<and> fault (disk st') = fault F \<and>
     ((\<exists>e. ERRORS st' = ERRORS st @ [copy_warning e f]
           \<and> ((\<forall>q. file_node (disk st') q = file_node F q)
               \<or> (\<exists>t. (t = T \<or> t = child T (name f))
                      \<and> file_node (disk st') (canon F t) \<noteq> None
                      \<and> (\<forall>q. q \<noteq> canon F t \<longrightarrow> file_node (disk st') q = file_node F q)))
           \<and> (clean_failures F \<longrightarrow> (\<forall>q. file_node (disk st') q = file_node F q)))
      \<or> (ERRORS st' = ERRORS st
          \<and> (\<exists>t c m. nodes F (canon F f) = Some (File c m)
                \<and> nodes (disk st') (canon F t) = Some (File c m)
                \<and> (t = T \<or> t = child T (name f)
                             \<and> (\<exists>ns. nodes (disk st') (canon F T) = Some (Dir ns)))
                \<and> (\<forall>q. q \<noteq> canon F t \<longrightarrow> file_node (disk st') q = file_node F q))))"
proof -
  let ?td = "child dst (get_extension_subdir lc f)"
  obtain F1 r where m: "mkdir F ?td = (F1, r)" by (cases "mkdir F ?td")
  from mkdir_keeps [OF m] have k: "canon F1 = canon F" "fault F1 = fault F"
    "\<forall>q. file_node F1 q = file_node F q"
    by (simp_all add: keeps_files_def)
  have cl: "clean_failures F \<Longrightarrow> clean_failures F1" using k(2) by (simp add: clean_failures_def)
  show ?thesis
  proof (cases r)
    case (Some e)
    with m have "st' = warn (copy_warning e f) (st\<lparr>disk := F1\<rparr>)"
      by (simp add: st'_def copy_one_def F_def Let_def)
    then have "disk st' = F1" "ERRORS st' = ERRORS st @ [copy_warning e f]"
      by (simp_all add: warn_def)
    with k show ?thesis by auto
  next
    case None
    obtain F2 r2 where c: "copy2 F1 f T = (F2, r2)" by (cases "copy2 F1 f T")
    note e = copy2_effect [OF c]
    have cf: "canon F2 = canon F" "fault F2 = fault F" using e(1) k(1,2) by simp_all
    show ?thesis
    proof (cases r2)
      case (Some e2)
      with None m c have "st' = warn (copy_warning e2 f) (st\<lparr>disk := F2\<rparr>)"
        by (simp add: st'_def copy_one_def F_def T_def target_file_def Let_def)
      then have d: "disk st' = F2" "ERRORS st' = ERRORS st @ [copy_warning e2 f]"
        by (simp_all add: warn_def)
      have a: "(\<forall>q. file_node F2 q = file_node F q)
               \<or> (\<exists>t. (t = T \<or> t = child T (name f))
                      \<and> file_node F2 (canon F t) \<noteq> None
                      \<and> (\<forall>q. q \<noteq> canon F t \<longrightarrow> file_node F2 q = file_node F q))"
        using e(3) Some k(1,3) by auto
      have b: "clean_failures F \<longrightarrow> (\<forall>q. file_node F2 q = file_node F q)"
        using e(4) Some cl k(3) by auto
      from d cf a b show ?thesis by auto
    next
      case ok: None
      with None m c have s: "st' = st\<lparr>disk := F2\<rparr>"
        by (simp add: st'_def copy_one_def F_def T_def target_file_def Let_def)
      from e(2) [OF ok] obtain t c m where
        x: "nodes F1 (canon F1 f) = Some (File c m)"
        "nodes F2 (canon F1 t) = Some (File c m)"
        "t = T \<or> t = child T (name f) \<and> (\<exists>ns. nodes F2 (canon F1 T) = Some (Dir ns))"
        "\<forall>q. q \<noteq> canon F1 t \<longrightarrow> file_node F2 q = file_node F1 q"
        by blast
      have "file_node F1 (canon F f) = Some (File c m)"
        using x(1) k(1) by (simp add: file_node_def)
      then have "file_node F (canon F f) = Some (File c m)" using k(3) by simp
      then have src: "nodes F (canon F f) = Some (File c m)" by (simp add: file_node_Some)
      have d: "disk st' = F2" "ERRORS st' = ERRORS st" using s by simp_all
      have rest: "\<forall>q. q \<noteq> canon F t \<longrightarrow> file_node F2 q = file_node F q"
        using x(4) k(1,3) by simp
      have third: "t = T \<or> t = child T (name f) \<and> (\<exists>ns. nodes F2 (canon F T) = Some (Dir ns))"
        using x(3) k(1) by simp
      have "\<exists>t c m. nodes F (canon F f) = Some (File c m)
                \<and> nodes F2 (canon F t) = Some (File c m)
                \<and> (t = T \<or> t = child T (name f)
                             \<and> (\<exists>ns. nodes F2 (canon F T) = Some (Dir ns)))
                \<and> (\<forall>q. q \<noteq> canon F t \<longrightarrow> file_node F2 q = file_node F q)"
        apply (rule exI [of _ t], rule exI [of _ c], rule exI [of _ m])
        using src x(2) k(1) third rest by simp
      with d cf show ?thesis by simp
    qed
  qed
qed

lemma copy_loop_append:
  "0 < tot \<Longrightarrow>
     copy_loop lc dst tot d i (xs @ ys) st
       = copy_loop lc dst tot d (i + length xs) ys (copy_loop lc dst tot d i xs st)"
  by (induction xs arbitrary: i st) (simp_all add: truediv_def Let_def)

lemma copy_loop_single:
  "0 < tot \<Longrightarrow>
     copy_loop lc dst tot d i [x] st = emit (Sleep d) (emit (ProgressBar i tot) (copy_one lc dst x st))"
  by (simp add: truediv_def Let_def)

lemma copy_loop_step:
  assumes "0 < tot" "k < length files"
  shows "copy_loop lc dst tot d i (take (Suc k) files) st
     = emit (Sleep d) (emit (ProgressBar (i + k) tot)
         (copy_one lc dst (files ! k) (copy_loop lc dst tot d i (take k files) st)))"
proof -
  have "take (Suc k) files = take k files @ [files ! k]"
    using assms(2) by (simp add: take_Suc_conv_app_nth)
  then show ?thesis
    using assms by (simp add: copy_loop_append min_def truediv_def Let_def)
qed

lemma copy_loop_frame:
  "0 < tot \<Longrightarrow> raised (copy_loop lc dst tot d i files st) = raised st"
  "0 < tot \<Longrightarrow> files_to_copy (copy_loop lc dst tot d i files st) = files_to_copy st"
  "0 < tot \<Longrightarrow> visited (copy_loop lc dst tot d i files st) = visited st"
  "0 < tot \<Longrightarrow> length (filter is_progress (stdout (copy_loop lc dst tot d i files st)))
      = length (filter is_progress (stdout st)) + length files"
  by (induction files arbitrary: i st)
    (simp_all add: truediv_def Let_def copy_one_frame emit_def is_progress_def)

text \<open>
  The runs on the example disks take \<open>lower_ascii\<close> for \<^verbatim>\<open>str.lower\<close>: every name on
  these disks consists of ASCII characters, on which the two agree.
\<close>

lemmas fs_eval =
  initial_state_def no_fault_def iterdir_def is_dir_def is_file_def exists_def probe_def stat_def
  ignore_error_def is_skipped_def resolve_def child_def parent_def name_def Let_def
  os_mkdir_def mkdir_exist_ok_def mkdir.simps isdir_quiet_def samefile_quiet_def read_file_def
  open_write_def put_def copy2_def copy_one_def copy_warning_def truediv_def warn_def emit_def
  get_extension_subdir_def suffix_def suffix_of_def lower_ascii_def lower_char_def ascii_upper_def
  ascii_lower_def lstrip_def

lemma clash_run:
  "ERRORS (copy_loop lower_ascii (Path ''/'' [''d'']) 1 20 1 [Path ''/'' [''s'', ''x.txt'']]
            (initial_state clash_fs)) = []"
  "file_node (disk (copy_loop lower_ascii (Path ''/'' [''d'']) 1 20 1 [Path ''/'' [''s'', ''x.txt'']]
            (initial_state clash_fs))) (Path ''/'' [''d'', ''txt'', ''x.txt'']) = None"
  "nodes (disk (copy_loop lower_ascii (Path ''/'' [''d'']) 1 20 1 [Path ''/'' [''s'', ''x.txt'']]
            (initial_state clash_fs))) (Path ''/'' [''d'', ''txt'', ''x.txt'', ''x.txt''])
     = Some (File ''X'' 1)"
  by (simp_all add: clash_fs_def fs_eval file_node_def)

lemma unreadable_run:
  "ERRORS (copy_loop lower_ascii (Path ''/'' [''d'']) 2 20 1
            [Path ''/'' [''s'', ''a.txt''], Path ''/'' [''s'', ''b.txt'']]
            (initial_state unreadable_fs))
     = [Warning CopyFile NoAccess (Path ''/'' [''s'', ''b.txt''])]"
  "nodes (disk (copy_loop lower_ascii (Path ''/'' [''d'']) 2 20 1
            [Path ''/'' [''s'', ''a.txt''], Path ''/'' [''s'', ''b.txt'']]
            (initial_state unreadable_fs))) (Path ''/'' [''d'', ''txt'', ''a.txt''])
     = Some (File ''A'' 1)"
  "stdout (copy_loop lower_ascii (Path ''/'' [''d'']) 2 20 1
            [Path ''/'' [''s'', ''a.txt''], Path ''/'' [''s'', ''b.txt'']]
            (initial_state unreadable_fs))
     = [ProgressBar 1 2, Sleep 20, ProgressBar 2 2, Sleep 20]"
  by (simp_all add: unreadable_fs_def fs_eval)

text \<open>
  C2, as amended. With a total that is not zero (it is the number of collected files, and the
  loop body runs only when there is one), the copy loop draws the progress bar once per
  collected file and no exception leaves it. For the attempt on each file, one of two
  things holds. Either no warning is recorded and the file's content and modification time
  are on disk after it: at the destination bucket path or, when that path is a directory,
  at the entry of the file's name inside that directory. Or exactly one warning is
  recorded, of the copy loop and about that file.
\<close>

theorem every_file_attempted_once:
  fixes lc dst tot d i files st
  defines "L \<equiv> \<lambda>k. copy_loop lc dst tot d i (take k files) st"
  assumes "0 < tot"
  shows "length (filter is_progress (stdout (copy_loop lc dst tot d i files st)))
           = length (filter is_progress (stdout st)) + length files
     \<and> raised (copy_loop lc dst tot d i files st) = raised st
     \<and> (\<forall>k<length files.
          (ERRORS (L (Suc k)) = ERRORS (L k)
           \<and> (\<exists>c m. nodes (disk (L k)) (canon (disk (L k)) (files ! k)) = Some (File c m)
                \<and> (nodes (disk (L (Suc k)))
                       (canon (disk (L k)) (target_file lc dst (files ! k))) = Some (File c m)
                    \<or> (\<exists>ns. nodes (disk (L (Suc k)))
                              (canon (disk (L k)) (target_file lc dst (files ! k))) = Some (Dir ns))
                      \<and> nodes (disk (L (Suc k)))
                          (canon (disk (L k))
                             (child (target_file lc dst (files ! k)) (name (files ! k))))
                          = Some (File c m))))
          \<or> (\<exists>w. ERRORS (L (Suc k)) = ERRORS (L k) @ [w] \<and> site w = CopyFile
                \<and> subject w = files ! k))"
proof -
  have step: "(ERRORS (L (Suc k)) = ERRORS (L k)
           \<and> (\<exists>c m. nodes (disk (L k)) (canon (disk (L k)) (files ! k)) = Some (File c m)
                \<and> (nodes (disk (L (Suc k)))
                       (canon (disk (L k)) (target_file lc dst (files ! k))) = Some (File c m)
                    \<or> (\<exists>ns. nodes (disk (L (Suc k)))
                              (canon (disk (L k)) (target_file lc dst (files ! k))) = Some (Dir ns))
                      \<and> nodes (disk (L (Suc k)))
                          (canon (disk (L k))
                             (child (target_file lc dst (files ! k)) (name (files ! k))))
                          = Some (File c m))))
          \<or> (\<exists>w. ERRORS (L (Suc k)) = ERRORS (L k) @ [w] \<and> site w = CopyFile
                \<and> subject w = files ! k)" if k: "k < length files" for k
  proof -
    let ?f = "files ! k"
    let ?one = "copy_one lc dst ?f (L k)"
    have "L (Suc k) = emit (Sleep d) (emit (ProgressBar (i + k) tot) ?one)"
      unfolding L_def using copy_loop_step [OF assms(2) k] by simp
    then have eq: "ERRORS (L (Suc k)) = ERRORS ?one" "disk (L (Suc k)) = disk ?one"
      by (simp_all add: emit_def)
    from copy_one_effect [of lc dst ?f "L k"] have
      "(\<exists>e. ERRORS ?one = ERRORS (L k) @ [copy_warning e ?f])
       \<or> (ERRORS ?one = ERRORS (L k)
          \<and> (\<exists>t c m. nodes (disk (L k)) (canon (disk (L k)) ?f) = Some (File c m)
                \<and> nodes (disk ?one) (canon (disk (L k)) t) = Some (File c m)
                \<and> (t = target_file lc dst ?f \<or> t = child (target_file lc dst ?f) (name ?f)
                     \<and> (\<exists>ns. nodes (disk ?one) (canon (disk (L k)) (target_file lc dst ?f))
                               = Some (Dir ns)))))"
      by blast
    then show ?thesis
    proof
      assume "\<exists>e. ERRORS ?one = ERRORS (L k) @ [copy_warning e ?f]"
      then obtain e where "ERRORS (L (Suc k)) = ERRORS (L k) @ [copy_warning e ?f]"
        using eq by auto
      moreover have "site (copy_warning e ?f) = CopyFile" "subject (copy_warning e ?f) = ?f"
        by (simp_all add: copy_warning_def)
      ultimately show ?thesis by blast
    next
      assume "ERRORS ?one = ERRORS (L k)
          \<and> (\<exists>t c m. nodes (disk (L k)) (canon (disk (L k)) ?f) = Some (File c m)
                \<and> nodes (disk ?one) (canon (disk (L k)) t) = Some (File c m)
                \<and> (t = target_file lc dst ?f \<or> t = child (target_file lc dst ?f) (name ?f)
                     \<and> (\<exists>ns. nodes (disk ?one) (canon (disk (L k)) (target_file lc dst ?f))
                               = Some (Dir ns))))"
      then show ?thesis unfolding eq by blast
    qed
  qed
  from copy_loop_frame(1,4) [OF assms(2)] step show ?thesis by blast
qed

theorem every_file_attempted_once_witness:
  "(0::nat) < 2
   \<and> length (filter is_progress (stdout (copy_loop lower_ascii (Path ''/'' [''d'']) 2 20 1
            [Path ''/'' [''s'', ''a.txt''], Path ''/'' [''s'', ''b.txt'']]
            (initial_state unreadable_fs)))) = 2
   \<and> ERRORS (copy_loop lower_ascii (Path ''/'' [''d'']) 2 20 1
            [Path ''/'' [''s'', ''a.txt''], Path ''/'' [''s'', ''b.txt'']]
            (initial_state unreadable_fs))
       = [Warning CopyFile NoAccess (Path ''/'' [''s'', ''b.txt''])]
   \<and> nodes (disk (copy_loop lower_ascii (Path ''/'' [''d'']) 2 20 1
            [Path ''/'' [''s'', ''a.txt''], Path ''/'' [''s'', ''b.txt'']]
            (initial_state unreadable_fs))) (Path ''/'' [''d'', ''txt'', ''a.txt''])
       = Some (File ''A'' 1)"
proof -
  have p: "(0::nat) < 2" by simp
  from every_file_attempted_once [OF p, of lower_ascii "Path ''/'' [''d'']" 20 1
      "[Path ''/'' [''s'', ''a.txt''], Path ''/'' [''s'', ''b.txt'']]"
      "initial_state unreadable_fs"]
  have "length (filter is_progress (stdout (copy_loop lower_ascii (Path ''/'' [''d'']) 2 20 1
            [Path ''/'' [''s'', ''a.txt''], Path ''/'' [''s'', ''b.txt'']]
            (initial_state unreadable_fs)))) = 2"
    by (simp add: initial_state_def)
  with unreadable_run(1,2) show ?thesis by simp
qed

text \<open>
  The claim as written fails where the destination bucket path is a directory already: the
  copy goes into that directory, no warning is recorded, and no file is at the bucket path.
\<close>

theorem bucket_path_directory_counterexample:
  "ERRORS (copy_loop lower_ascii (Path ''/'' [''d'']) 1 20 1 [Path ''/'' [''s'', ''x.txt'']]
            (initial_state clash_fs)) = ERRORS (initial_state clash_fs)
   \<and> file_node (disk (copy_loop lower_ascii (Path ''/'' [''d'']) 1 20 1 [Path ''/'' [''s'', ''x.txt'']]
            (initial_state clash_fs)))
         (target_file lower_ascii (Path ''/'' [''d'']) (Path ''/'' [''s'', ''x.txt''])) = None"
proof -
  have t: "target_file lower_ascii (Path ''/'' [''d'']) (Path ''/'' [''s'', ''x.txt''])
             = Path ''/'' [''d'', ''txt'', ''x.txt'']"
    by (simp add: target_file_def fs_eval)
  show ?thesis unfolding t using clash_run(1,2) by (simp add: initial_state_def)
qed

section \<open>Runs of the program\<close>

lemmas main_eval =
  main_def read_warning_def src_missing_def choose_skip_dir_def is_inside_def relative_to_def choose_delay_def
  sorted_entries_def ext_color_def EXT_COLOR_MAP_def DEFAULT_FILE_COLOR_def
  less_eq_prod_def less_prod_def less_eq_char_def less_char_def

lemma denied_run:
  "(case main lower_ascii (Suc (Suc 0)) denied_fs (Path ''/'' [''s'']) (Path ''/'' [''d'']) of
      None \<Rightarrow> False
    | Some st \<Rightarrow>
        ERRORS st = [Warning WalkDir NoAccess (Path ''/'' [''s''])]
        \<and> stdout st = [TreeDir [] NoGlyph ''d''] \<and> raised st = None)"
  by (simp add: denied_fs_def main_eval fs_eval)

lemma same_run:
  "(case main lower_ascii (Suc (Suc (Suc 0))) same_fs (Path ''/'' [''a'']) (Path ''/'' [''a'']) of
      None \<Rightarrow> False
    | Some st \<Rightarrow>
        files_to_copy st = [Path ''/'' [''a'', ''x.txt''], Path ''/'' [''a'', ''txt'', ''x.txt'']]
        \<and> visited st = [Path ''/'' [''a''], Path ''/'' [''a'', ''txt'']]
        \<and> ERRORS st = [Warning CopyFile CopyFailed (Path ''/'' [''a'', ''txt'', ''x.txt''])]
        \<and> raised st = None)"
  by (simp add: same_fs_def main_eval fs_eval)

lemma dup_run:
  "(case main lower_ascii (Suc (Suc (Suc 0))) dup_fs (Path ''/'' [''s'']) (Path ''/'' [''d'']) of
      None \<Rightarrow> False
    | Some st \<Rightarrow>
        files_to_copy st = [Path ''/'' [''s'', ''a'', ''x.txt''], Path ''/'' [''s'', ''b'', ''x.txt'']]
        \<and> ERRORS st = []
        \<and> raised st = None
        \<and> files_under (disk st) (Path ''/'' [''d'']) = {Path ''/'' [''d'', ''txt'', ''x.txt'']})"
  apply (simp add: dup_fs_def main_eval fs_eval)
  apply (auto simp: files_under_def under_def file_node_def split: if_splits option.splits node.splits)
  done

lemma under_target:
  "under dst (target_file lc dst f)" "under dst (child (target_file lc dst f) n)"
  by (simp_all add: under_def target_file_def child_def)

lemma target_neq_child: "target_file lc dst g \<noteq> child (target_file lc dst f) n"
proof
  assume "target_file lc dst g = child (target_file lc dst f) n"
  then have "length (parts (target_file lc dst g)) = length (parts (child (target_file lc dst f) n))"
    by simp
  then show False by (simp add: target_file_def child_def)
qed

lemma child_inject: "child p n = child q m \<Longrightarrow> anchor p = anchor q \<and> parts p = parts q"
  by (simp add: child_def)

lemma child_target_eq:
  assumes "child (target_file lc dst g) n = child (target_file lc dst f) m"
  shows "target_file lc dst g = target_file lc dst f"
proof -
  from child_inject [OF assms] show ?thesis by (simp add: path.expand)
qed

lemma files_under_keeps:
  "\<forall>q. file_node F' q = file_node F q \<Longrightarrow> files_under F' d = files_under F d"
  by (simp add: files_under_def)

lemma emit_frame [simp]:
  "disk (emit e st) = disk st" "ERRORS (emit e st) = ERRORS st"
  "files_to_copy (emit e st) = files_to_copy st" "raised (emit e st) = raised st"
  "visited (emit e st) = visited st"
  by (simp_all add: emit_def)

text \<open>
  The count of the copy loop. Every attempt that records no warning adds one file under the
  destination; an attempt that records a warning adds none or, when it failed after the
  destination was opened, one.
\<close>

lemma copy_loop_count:
  assumes "0 < tot"
    and "\<forall>q. under dst q \<longrightarrow> canon (disk st) q = q"
    and "files_under (disk st) dst \<subseteq> A" and "finite A"
    and "\<forall>f\<in>set files. target_file lc dst f \<notin> A \<and> child (target_file lc dst f) (name f) \<notin> A"
    and "distinct (map (target_file lc dst) files)"
  shows "card (files_under (disk (copy_loop lc dst tot d i files st)) dst)
           \<le> card (files_under (disk st) dst) + length files
       \<and> card (files_under (disk st) dst) + copy_warnings (ERRORS st) + length files
           \<le> card (files_under (disk (copy_loop lc dst tot d i files st)) dst)
               + copy_warnings (ERRORS (copy_loop lc dst tot d i files st))
       \<and> (clean_failures (disk st) \<longrightarrow>
            card (files_under (disk (copy_loop lc dst tot d i files st)) dst)
               + copy_warnings (ERRORS (copy_loop lc dst tot d i files st))
            = card (files_under (disk st) dst) + copy_warnings (ERRORS st) + length files)"
  using assms
proof (induction files arbitrary: i st A)
  case Nil
  then show ?case by simp
next
  case (Cons f rest)
  let ?T = "target_file lc dst f"
  let ?st1 = "copy_one lc dst f st"
  let ?stn = "emit (Sleep d) (emit (ProgressBar i tot) ?st1)"
  let ?end = "copy_loop lc dst tot d (Suc i) rest ?stn"
  let ?A = "insert ?T (insert (child ?T (name f)) A)"
  have loop: "copy_loop lc dst tot d i (f # rest) st = ?end"
    using Cons.prems(1) by (simp add: truediv_def Let_def)
  note eff = copy_one_effect [of lc dst f st]
  from eff have can: "canon (disk ?st1) = canon (disk st)" by blast
  from eff have "fault (disk ?st1) = fault (disk st)" by blast
  then have cl: "clean_failures (disk ?stn) = clean_failures (disk st)"
    by (simp add: clean_failures_def)
  have nl: "\<forall>q. under dst q \<longrightarrow> canon (disk ?stn) q = q"
    using Cons.prems(2) can by simp
  have fin: "finite (files_under (disk st) dst)"
    using Cons.prems(3,4) finite_subset by blast
  have dis: "distinct (map (target_file lc dst) rest)" using Cons.prems(6) by simp
  have finA: "finite ?A" using Cons.prems(4) by simp
  have restA: "\<forall>g\<in>set rest. target_file lc dst g \<notin> ?A \<and> child (target_file lc dst g) (name g) \<notin> ?A"
  proof
    fix g assume g: "g \<in> set rest"
    have a: "target_file lc dst g \<notin> A" "child (target_file lc dst g) (name g) \<notin> A"
      using Cons.prems(5) g by simp_all
    have "?T \<notin> target_file lc dst ` set rest" using Cons.prems(6) by simp
    then have b: "target_file lc dst g \<noteq> ?T" using g by (metis imageI)
    have c: "target_file lc dst g \<noteq> child ?T (name f)" by (rule target_neq_child)
    have d: "child (target_file lc dst g) (name g) \<noteq> ?T"
      using target_neq_child [of lc dst f g "name g"] by metis
    have e: "child (target_file lc dst g) (name g) \<noteq> child ?T (name f)"
      using child_target_eq b by blast
    from a b c d e
    show "target_file lc dst g \<notin> ?A \<and> child (target_file lc dst g) (name g) \<notin> ?A" by simp
  qed
  have added: "files_under (disk ?stn) dst \<subseteq> ?A
               \<and> card (files_under (disk ?stn) dst) = card (files_under (disk st) dst) + 1"
    if t: "t = ?T \<or> t = child ?T (name f)"
      and n: "file_node (disk ?st1) (canon (disk st) t) \<noteq> None"
      and r: "\<forall>q. q \<noteq> canon (disk st) t \<longrightarrow> file_node (disk ?st1) q = file_node (disk st) q"
    for t
  proof -
    have tu: "under dst t" using t under_target by auto
    then have ct: "canon (disk st) t = t" using Cons.prems(2) by blast
    have tA: "t \<notin> A" using t Cons.prems(5) by auto
    then have tnew: "t \<notin> files_under (disk st) dst" using Cons.prems(3) by blast
    have "files_under (disk ?st1) dst = insert t (files_under (disk st) dst)"
      using n r ct tu by (auto simp: files_under_def)
    then have fu: "files_under (disk ?stn) dst = insert t (files_under (disk st) dst)" by simp
    have s: "files_under (disk ?stn) dst \<subseteq> ?A" unfolding fu using Cons.prems(3) t by auto
    have "card (files_under (disk ?stn) dst) = card (files_under (disk st) dst) + 1"
      unfolding fu using fin tnew by simp
    with s show ?thesis by blast
  qed
  from eff consider
    (fail) e where "ERRORS ?st1 = ERRORS st @ [copy_warning e f]"
      "\<forall>q. file_node (disk ?st1) q = file_node (disk st) q"
    | (late) e t where "ERRORS ?st1 = ERRORS st @ [copy_warning e f]"
      "t = ?T \<or> t = child ?T (name f)"
      "file_node (disk ?st1) (canon (disk st) t) \<noteq> None"
      "\<forall>q. q \<noteq> canon (disk st) t \<longrightarrow> file_node (disk ?st1) q = file_node (disk st) q"
      "\<not> (\<forall>q. file_node (disk ?st1) q = file_node (disk st) q)"
      "\<not> clean_failures (disk st)"
    | (ok) t c m where "ERRORS ?st1 = ERRORS st"
      "nodes (disk ?st1) (canon (disk st) t) = Some (File c m)"
      "t = ?T \<or> t = child ?T (name f)"
      "\<forall>q. q \<noteq> canon (disk st) t \<longrightarrow> file_node (disk ?st1) q = file_node (disk st) q"
    by blast
  then have step: "files_under (disk ?stn) dst \<subseteq> ?A
      \<and> card (files_under (disk ?stn) dst) \<le> card (files_under (disk st) dst) + 1
      \<and> card (files_under (disk st) dst) + copy_warnings (ERRORS st) + 1
           \<le> card (files_under (disk ?stn) dst) + copy_warnings (ERRORS ?stn)
      \<and> (clean_failures (disk st) \<longrightarrow>
           card (files_under (disk ?stn) dst) + copy_warnings (ERRORS ?stn)
           = card (files_under (disk st) dst) + copy_warnings (ERRORS st) + 1)"
  proof cases
    case fail
    have fu: "files_under (disk ?stn) dst = files_under (disk st) dst"
      using files_under_keeps [OF fail(2)] by simp
    have er: "copy_warnings (ERRORS ?stn) = copy_warnings (ERRORS st) + 1"
      using fail(1) by (simp add: copy_warning_def copy_warnings_def)
    from fu er Cons.prems(3) show ?thesis by auto
  next
    case late
    note a = added [OF late(2,3,4)]
    have er: "copy_warnings (ERRORS ?stn) = copy_warnings (ERRORS st) + 1"
      using late(1) by (simp add: copy_warning_def copy_warnings_def)
    from a er late(6) show ?thesis by simp
  next
    case ok
    have "file_node (disk ?st1) (canon (disk st) t) \<noteq> None"
      using ok(2) by (simp add: file_node_def)
    note a = added [OF ok(3) this ok(4)]
    have er: "copy_warnings (ERRORS ?stn) = copy_warnings (ERRORS st)" using ok(1) by simp
    from a er show ?thesis by simp
  qed
  then have sub: "files_under (disk ?stn) dst \<subseteq> ?A" by blast
  note ih = Cons.IH [OF Cons.prems(1) nl sub finA restA dis, of "Suc i"]
  from ih step cl show ?case unfolding loop by auto
qed

lemma print_warnings_frame [simp]:
  "disk (print_warnings ws st) = disk st" "ERRORS (print_warnings ws st) = ERRORS st"
  "files_to_copy (print_warnings ws st) = files_to_copy st"
  "raised (print_warnings ws st) = raised st" "visited (print_warnings ws st) = visited st"
  by (induction ws arbitrary: st) simp_all

lemma print_warnings_stdout:
  "stdout (print_warnings ws st) = stdout st @ map WarnLine ws"
  by (induction ws arbitrary: st) (simp_all add: emit_def)

lemma is_inside_total: "\<exists>b. is_inside c p = Inr b"
  by (auto simp: is_inside_def relative_to_def)

lemma choose_skip_dir_total: "\<exists>s. choose_skip_dir dst src = Inr s"
  using is_inside_total [of dst src] by (auto simp: choose_skip_dir_def)

lemma initial_state_simps [simp]:
  "disk (initial_state F) = F" "ERRORS (initial_state F) = []" "stdout (initial_state F) = []"
  "files_to_copy (initial_state F) = []" "raised (initial_state F) = None"
  "visited (initial_state F) = []"
  by (simp_all add: initial_state_def)

lemma os_mkdir_makes_dir:
  "os_mkdir F p = Inr F' \<Longrightarrow> nodes F' (canon F p) = Some (Dir [])"
  by (auto simp: os_mkdir_def Let_def split: option.splits node.splits)

lemma is_dir_True_node:
  "is_dir F p = Inr True \<Longrightarrow> \<exists>ns. nodes F (canon F p) = Some (Dir ns)"
  by (auto simp: is_dir_def probe_def stat_def node.disc_eq_case
      split: option.splits sum.splits if_splits node.splits)

lemma mkdir_exist_ok_makes_dir:
  assumes "mkdir_exist_ok F p = Inr F'"
  shows "\<exists>ns. nodes F' (canon F p) = Some (Dir ns)"
proof (cases "os_mkdir F p")
  case (Inr F1)
  with assms have "F' = F1" by (simp add: mkdir_exist_ok_def)
  with Inr show ?thesis using os_mkdir_makes_dir by blast
next
  case (Inl e)
  with assms have "F' = F" "is_dir F p = Inr True"
    by (auto simp: mkdir_exist_ok_def split: if_splits sum.splits bool.splits)
  then show ?thesis using is_dir_True_node by blast
qed

lemma mkdir_makes_dir:
  assumes "mkdir F p = (F', None)"
  shows "\<exists>ns. nodes F' (canon F p) = Some (Dir ns)"
proof (cases "os_mkdir F p")
  case (Inr F1)
  with assms have "F' = F1" by (simp add: mkdir.simps)
  with Inr show ?thesis using os_mkdir_makes_dir by blast
next
  case (Inl e)
  show ?thesis
  proof (cases "e = FileNotFoundError")
    case False
    with Inl assms have "F' = F" "is_dir F p = Inr True"
      by (auto simp: mkdir.simps split: sum.splits bool.splits)
    then show ?thesis using is_dir_True_node by blast
  next
    case True
    obtain F1 r1 where m: "mkdir F (parent p) = (F1, r1)" by (cases "mkdir F (parent p)")
    from Inl True assms m have x: "mkdir_exist_ok F1 p = Inr F'"
      by (auto simp: mkdir.simps split: if_splits option.splits sum.splits)
    have "canon F1 = canon F" using mkdir_keeps [OF m] by (simp add: keeps_files_def)
    with mkdir_exist_ok_makes_dir [OF x] show ?thesis by simp
  qed
qed

text \<open>The shape of a run that passes the source check and makes the destination.\<close>

lemma main_after_mkdir:
  assumes "main lc k F src_arg dst_arg = Some st"
    and "src_missing F (resolve F src_arg) = Inr False"
    and "mkdir F (resolve F dst_arg) = (F1, None)"
  shows "\<exists>skip st1. choose_skip_dir (resolve F dst_arg) (resolve F src_arg) = Inr skip
     \<and> collect_files_recursive k (resolve F src_arg) skip ((initial_state F)\<lparr>disk := F1\<rparr>) = Some st1
     \<and> (files_to_copy st1 = [] \<longrightarrow> display_tree k (resolve F dst_arg) [] NoGlyph st1 = Some st)
     \<and> (files_to_copy st1 \<noteq> [] \<longrightarrow>
          (\<exists>st5. disk st5 = disk (copy_loop lc (resolve F dst_arg) (length (files_to_copy st1))
                          (choose_delay (length (files_to_copy st1))) 1 (files_to_copy st1) st1)
             \<and> ERRORS st5 = ERRORS (copy_loop lc (resolve F dst_arg) (length (files_to_copy st1))
                          (choose_delay (length (files_to_copy st1))) 1 (files_to_copy st1) st1)
             \<and> files_to_copy st5 = files_to_copy st1
             \<and> display_tree k (resolve F dst_arg) [] NoGlyph st5 = Some st))"
proof -
  let ?src = "resolve F src_arg" and ?dst = "resolve F dst_arg"
  obtain skip where sk: "choose_skip_dir ?dst ?src = Inr skip"
    using choose_skip_dir_total by blast
  let ?w = "collect_files_recursive k ?src skip ((initial_state F)\<lparr>disk := F1\<rparr>)"
  from assms sk obtain st1 where w: "?w = Some st1"
    by (cases ?w) (simp_all add: main_def Let_def)
  from walk_extends(1) [OF w] have r1: "raised st1 = None"
    by (simp add: extends_walk_def)
  let ?n = "length (files_to_copy st1)"
  let ?st2 = "copy_loop lc ?dst ?n (choose_delay ?n) 1 (files_to_copy st1) st1"
  let ?st3 = "emit Newline ?st2"
  let ?st4 = "if ERRORS ?st3 \<noteq> [] then emit Newline (print_warnings (ERRORS ?st3) ?st3) else ?st3"
  let ?st5 = "emit Info ?st4"
  have a: "files_to_copy st1 = [] \<longrightarrow> display_tree k ?dst [] NoGlyph st1 = Some st"
  proof
    assume e: "files_to_copy st1 = []"
    with assms sk w show "display_tree k ?dst [] NoGlyph st1 = Some st"
      by (simp add: main_def Let_def)
  qed
  have b: "\<exists>st5. disk st5 = disk ?st2 \<and> ERRORS st5 = ERRORS ?st2
             \<and> files_to_copy st5 = files_to_copy st1
             \<and> display_tree k ?dst [] NoGlyph st5 = Some st" if ne: "files_to_copy st1 \<noteq> []"
  proof -
    have pos: "0 < ?n" using ne by simp
    have r2: "raised ?st2 = None" using copy_loop_frame(1) [OF pos] r1 by simp
    have f2: "files_to_copy ?st2 = files_to_copy st1" using copy_loop_frame(2) [OF pos] by simp
    have m: "main lc k F src_arg dst_arg = display_tree k ?dst [] NoGlyph ?st5"
      using assms(2,3) sk w ne r2 by (simp add: main_def Let_def del: emit_frame)
    have "disk ?st5 = disk ?st2" "ERRORS ?st5 = ERRORS ?st2" "files_to_copy ?st5 = files_to_copy st1"
      using f2 by simp_all
    with m assms(1) show ?thesis by metis
  qed
  from sk w a b show ?thesis by blast
qed

text \<open>
  The walker on a source tree. \<open>under\<close> is a partial order on paths, and on a tidy tree
  whatever exists below a path hangs on a chain of directories from that path.
\<close>

lemma under_refl: "under d d"
  by (simp add: under_def)

lemma under_length: "under d q \<Longrightarrow> length (parts d) \<le> length (parts q)"
proof -
  assume "under d q"
  then have "length (take (length (parts d)) (parts q)) = length (parts d)"
    by (simp add: under_def)
  then show ?thesis by simp
qed

lemma under_trans:
  assumes "under a b" "under b c"
  shows "under a c"
proof -
  have l: "length (parts a) \<le> length (parts b)" using assms(1) by (rule under_length)
  have "take (length (parts a)) (parts c)
          = take (length (parts a)) (take (length (parts b)) (parts c))"
    using l by (simp add: min_def)
  also have "\<dots> = take (length (parts a)) (parts b)" using assms(2) by (simp add: under_def)
  also have "\<dots> = parts a" using assms(1) by (simp add: under_def)
  finally show ?thesis using assms by (simp add: under_def)
qed

lemma under_same_length:
  assumes "under d q" "length (parts q) \<le> length (parts d)"
  shows "q = d"
proof -
  from assms have "parts q = parts d" "anchor q = anchor d" by (auto simp: under_def)
  then show ?thesis by (simp add: path.expand)
qed

lemma under_antisym: "under a b \<Longrightarrow> under b a \<Longrightarrow> a = b"
  using under_same_length under_length by blast

lemma under_child_self: "under p (child p n)"
  by (simp add: under_def child_def)

lemma under_parent_self: "under (parent p) p"
  by (simp add: under_def parent_def butlast_conv_take)

lemma under_parent:
  assumes "under x q" "q \<noteq> x"
  shows "under x (parent q)" "child (parent q) (name q) = q"
    "length (parts (parent q)) < length (parts q)"
proof -
  have l: "length (parts x) < length (parts q)"
    using assms under_same_length [OF assms(1)] by (meson not_le)
  then have ne: "parts q \<noteq> []" by auto
  have "take (length (parts x)) (butlast (parts q)) = take (length (parts x)) (parts q)"
    using l by (simp add: take_butlast)
  with assms(1) show "under x (parent q)" by (simp add: under_def parent_def)
  show "child (parent q) (name q) = q" using ne by (simp add: child_def parent_def name_def)
  show "length (parts (parent q)) < length (parts q)" using ne by (simp add: parent_def)
qed

lemma above_is_dir:
  assumes t: "tidy_tree F src" and x: "under src x"
  shows "under x q \<Longrightarrow> q \<noteq> x \<Longrightarrow> nodes F q \<noteq> None \<Longrightarrow> \<exists>ns. nodes F x = Some (Dir ns)"
proof (induction "length (parts q)" arbitrary: q rule: less_induct)
  case less
  note p = under_parent [OF less.prems(1,2)]
  have uq: "under src q" using x less.prems(1) by (rule under_trans)
  have "q \<noteq> src"
  proof
    assume "q = src"
    with less.prems(1) x have "x = q" using under_antisym by blast
    with less.prems(2) show False by simp
  qed
  with t uq less.prems(3) obtain ns where d: "nodes F (parent q) = Some (Dir ns)"
    unfolding tidy_tree_def by blast
  show ?case
  proof (cases "parent q = x")
    case True
    with d show ?thesis by blast
  next
    case False
    from d have "nodes F (parent q) \<noteq> None" by simp
    from less.hyps [OF p(3) p(1) False this] show ?thesis .
  qed
qed

lemma files_under_missing:
  assumes "tidy_tree F src" "under src x" "nodes F x = None"
  shows "files_under F x = {}"
proof -
  have "file_node F q = None" if q: "under x q" for q
  proof (cases "q = x")
    case True
    with assms(3) show ?thesis by (simp add: file_node_def)
  next
    case False
    show ?thesis
    proof (rule ccontr)
      assume "file_node F q \<noteq> None"
      then have "nodes F q \<noteq> None" by (auto simp: file_node_def split: option.splits)
      from above_is_dir [OF assms(1,2) q False this] assms(3) show False by simp
    qed
  qed
  then show ?thesis by (simp add: files_under_def)
qed

lemma files_under_file:
  assumes "tidy_tree F src" "under src x" "nodes F x = Some (File c m)"
  shows "files_under F x = {x}"
proof -
  have a: "file_node F q = None" if q: "under x q" "q \<noteq> x" for q
  proof (rule ccontr)
    assume "file_node F q \<noteq> None"
    then have "nodes F q \<noteq> None" by (auto simp: file_node_def split: option.splits)
    from above_is_dir [OF assms(1,2) q this] assms(3) show False by simp
  qed
  have b: "file_node F x \<noteq> None" using assms(3) by (simp add: file_node_def)
  show ?thesis
  proof
    show "files_under F x \<subseteq> {x}"
    proof
      fix q assume "q \<in> files_under F x"
      then have "under x q" "file_node F q \<noteq> None" by (simp_all add: files_under_def)
      with a [of q] have "q = x" by auto
      then show "q \<in> {x}" by simp
    qed
    show "{x} \<subseteq> files_under F x" using b by (simp add: files_under_def under_refl)
  qed
qed

lemma below_child:
  assumes "under p q" "q \<noteq> p"
  shows "under (child p (parts q ! length (parts p))) q"
proof -
  have l: "length (parts p) < length (parts q)"
    using assms under_same_length [OF assms(1)] by (meson not_le)
  have "take (Suc (length (parts p))) (parts q)
          = take (length (parts p)) (parts q) @ [parts q ! length (parts p)]"
    using l by (simp add: take_Suc_conv_app_nth)
  with assms(1) show ?thesis by (simp add: under_def child_def)
qed

lemma parent_child: "parent (child p n) = p"
  by (simp add: parent_def child_def)

lemma child_neq_above:
  assumes "under src p"
  shows "child p n \<noteq> src"
proof
  assume "child p n = src"
  then have "length (parts src) = Suc (length (parts p))" by (auto simp: child_def)
  with under_length [OF assms] show False by simp
qed

lemma files_under_dir:
  assumes t: "tidy_tree F src" and p: "under src p" and d: "nodes F p = Some (Dir ns)"
  shows "files_under F p = (\<Union>n\<in>set ns. files_under F (child p n))"
proof
  show "files_under F p \<subseteq> (\<Union>n\<in>set ns. files_under F (child p n))"
  proof
    fix q assume "q \<in> files_under F p"
    then have q: "under p q" "file_node F q \<noteq> None" by (simp_all add: files_under_def)
    have ne: "q \<noteq> p" using q(2) d by (auto simp: file_node_def)
    let ?n = "parts q ! length (parts p)"
    let ?x = "child p ?n"
    have ux: "under ?x q" using q(1) ne by (rule below_child)
    have sx: "under src ?x" using p under_child_self by (rule under_trans)
    have nq: "nodes F q \<noteq> None" using q(2) by (auto simp: file_node_def split: option.splits)
    have "nodes F ?x \<noteq> None"
    proof (cases "q = ?x")
      case True
      with nq show ?thesis by simp
    next
      case False
      from above_is_dir [OF t sx ux False nq] show ?thesis by auto
    qed
    with t sx child_neq_above [OF p] obtain ns' where
      "nodes F (parent ?x) = Some (Dir ns')" "name ?x \<in> set ns'"
      unfolding tidy_tree_def by blast
    with d have "?n \<in> set ns" by (simp add: parent_child)
    with ux q(2) show "q \<in> (\<Union>n\<in>set ns. files_under F (child p n))"
      by (auto simp: files_under_def)
  qed
  show "(\<Union>n\<in>set ns. files_under F (child p n)) \<subseteq> files_under F p"
    using under_trans [OF under_child_self] by (auto simp: files_under_def)
qed

lemma files_under_disjoint:
  assumes "length (parts x) = length (parts y)" "x \<noteq> y"
  shows "files_under F x \<inter> files_under F y = {}"
proof -
  have False if "under x q" "under y q" for q
  proof -
    from that assms(1) have "parts x = parts y" "anchor x = anchor y" by (auto simp: under_def)
    then have "x = y" by (simp add: path.expand)
    with assms(2) show False by simp
  qed
  then show ?thesis by (auto simp: files_under_def)
qed

lemma gathers_refl: "gathers st st {}"
  by (simp add: gathers_def)

lemma gathers_trans:
  assumes "gathers st st1 A" "gathers st1 st2 B" "A \<inter> B = {}"
  shows "gathers st st2 (A \<union> B)"
proof -
  from assms(1) obtain fs where a: "disk st1 = disk st"
    "files_to_copy st1 = files_to_copy st @ fs" "distinct fs" "set fs = A"
    unfolding gathers_def by blast
  from assms(2) obtain gs where b: "disk st2 = disk st1"
    "files_to_copy st2 = files_to_copy st1 @ gs" "distinct gs" "set gs = B"
    unfolding gathers_def by blast
  have "files_to_copy st2 = files_to_copy st @ (fs @ gs)" using a b by simp
  moreover have "distinct (fs @ gs)" using a b assms(3) by auto
  moreover have "set (fs @ gs) = A \<union> B" using a b by simp
  ultimately show ?thesis unfolding gathers_def using a(1) b(1) by metis
qed

lemma gathers_step:
  assumes "gathers st st1 {}" "gathers st1 st2 B"
  shows "gathers st st2 B"
  using gathers_trans [OF assms] by simp

lemma gathers_warn: "gathers st (warn w st) {}"
  by (simp add: gathers_def warn_def)

lemma gathers_visit: "gathers st (st\<lparr>visited := visited st @ [p]\<rparr>) {}"
  by (simp add: gathers_def)

lemma gathers_file: "gathers st (st\<lparr>files_to_copy := files_to_copy st @ [p]\<rparr>) {p}"
  by (simp add: gathers_def)

lemma tidy_probe:
  assumes "tidy_tree F src" "under src x"
  shows "is_dir F x = Inr (case nodes F x of Some (Dir ns) \<Rightarrow> True | _ \<Rightarrow> False)"
    and "is_file F x = Inr (case nodes F x of Some (File c m) \<Rightarrow> True | _ \<Rightarrow> False)"
    and "exists F x = Inr (nodes F x \<noteq> None)"
proof -
  from assms have a: "canon F x = x" "fault F OpStat x = None" unfolding tidy_tree_def by blast+
  show "is_dir F x = Inr (case nodes F x of Some (Dir ns) \<Rightarrow> True | _ \<Rightarrow> False)"
    using a by (simp add: is_dir_def probe_def stat_def ignore_error_def
        split: option.splits node.splits)
  show "is_file F x = Inr (case nodes F x of Some (File c m) \<Rightarrow> True | _ \<Rightarrow> False)"
    using a by (simp add: is_file_def probe_def stat_def ignore_error_def
        split: option.splits node.splits)
  show "exists F x = Inr (nodes F x \<noteq> None)"
    using a by (simp add: exists_def probe_def stat_def ignore_error_def
        split: option.splits node.splits)
qed

lemma tidy_iterdir:
  assumes "tidy_tree F src" "under src p" "nodes F p = Some (Dir ns)"
  shows "iterdir F p = Inr (map (child p) ns)"
proof -
  from assms have a: "canon F p = p" "fault F OpList p = None" unfolding tidy_tree_def by blast+
  with assms(3) show ?thesis by (simp add: iterdir_def)
qed

lemma child_inj: "inj_on (child p) A"
  by (simp add: inj_on_def child_def)

text \<open>
  On a source tree the walker, without a skip directory, collects every regular file of the
  tree once.
\<close>

lemma walker_complete:
  assumes t: "tidy_tree F src"
  shows "collect_files_recursive k p skip st = Some st' \<Longrightarrow> skip = None \<Longrightarrow> disk st = F \<Longrightarrow>
           under src p \<Longrightarrow> (\<exists>ns. nodes F p = Some (Dir ns)) \<Longrightarrow>
           gathers st st' (files_under F p)"
    and "collect_entries k es skip st = Some st' \<Longrightarrow> skip = None \<Longrightarrow> disk st = F \<Longrightarrow>
           (\<forall>x\<in>set es. under src x \<and> length (parts x) = n) \<Longrightarrow> distinct es \<Longrightarrow>
           gathers st st' (\<Union>x\<in>set es. files_under F x)"
proof (induction k p skip st and k es skip st arbitrary: st' and st' n
    rule: collect_files_recursive_collect_entries.induct)
  case (1 src skip_dir st)
  then show ?case by simp
next
  case (2 k p skip_dir st)
  let ?st1 = "st\<lparr>visited := visited st @ [p]\<rparr>"
  from "2.prems"(5) obtain ns where d: "nodes F p = Some (Dir ns)" by blast
  have it: "iterdir (disk st) p = Inr (map (child p) ns)"
    using tidy_iterdir [OF t "2.prems"(4) d] "2.prems"(3) by simp
  with "2.prems"(1) have r: "collect_entries k (map (child p) ns) skip_dir ?st1 = Some st'"
    by (simp add: Let_def)
  have d1: "disk ?st1 = F" using "2.prems"(3) by simp
  have u: "\<forall>x\<in>set (map (child p) ns). under src x \<and> length (parts x) = Suc (length (parts p))"
    using under_trans [OF "2.prems"(4) under_child_self] by (auto simp: child_def)
  have "distinct ns" using t "2.prems"(4) d unfolding tidy_tree_def by blast
  then have dis: "distinct (map (child p) ns)" by (simp add: distinct_map child_inj)
  have "gathers ?st1 st' (\<Union>x\<in>set (map (child p) ns). files_under F x)"
    by (rule "2.IH" [OF refl it r "2.prems"(2) d1 u dis])
  then have "gathers ?st1 st' (files_under F p)"
    using files_under_dir [OF t "2.prems"(4) d] by simp
  with gathers_visit show ?case using gathers_step by blast
next
  case (3 k skip_dir st)
  then show ?case by (simp add: gathers_refl)
next
  case (4 k item rest skip_dir st)
  have ur: "\<forall>x\<in>set rest. under src x \<and> length (parts x) = n" using "4.prems"(4) by simp
  have ui: "under src item" and li: "length (parts item) = n" using "4.prems"(4) by simp_all
  have dr: "distinct rest" and ir: "item \<notin> set rest" using "4.prems"(5) by simp_all
  have ns: "\<not> is_skipped (disk st) skip_dir item" using "4.prems"(2) by (simp add: is_skipped_def)
  have dj: "files_under F item \<inter> (\<Union>x\<in>set rest. files_under F x) = {}"
  proof -
    have "files_under F item \<inter> files_under F x = {}" if "x \<in> set rest" for x
      using files_under_disjoint [of item x F] that ur li ir by auto
    then show ?thesis by blast
  qed
  note pr = tidy_probe [OF t ui]
  show ?case
  proof (cases "nodes F item")
    case None
    have isd: "is_dir (disk st) item = Inr False" and isf: "is_file (disk st) item = Inr False"
      using pr None "4.prems"(3) by simp_all
    with ns "4.prems"(1) have r: "collect_entries k rest skip_dir st = Some st'" by simp
    have "gathers st st' (\<Union>x\<in>set rest. files_under F x)"
      using "4.IH"(7) ns isd isf r "4.prems"(2,3) ur dr by blast
    moreover have "files_under F item = {}" using files_under_missing [OF t ui None] .
    ultimately show ?thesis by simp
  next
    case (Some nd)
    show ?thesis
    proof (cases nd)
      case (File c m)
      with Some have nf: "nodes F item = Some (File c m)" by simp
      have isd: "is_dir (disk st) item = Inr False" and isf: "is_file (disk st) item = Inr True"
        using pr nf "4.prems"(3) by simp_all
      let ?c = "st\<lparr>files_to_copy := files_to_copy st @ [item]\<rparr>"
      from ns isd isf "4.prems"(1) have r: "collect_entries k rest skip_dir ?c = Some st'" by simp
      have "disk ?c = F" using "4.prems"(3) by simp
      then have g: "gathers ?c st' (\<Union>x\<in>set rest. files_under F x)"
        using "4.IH"(6) ns isd isf r "4.prems"(2) ur dr by blast
      have fi: "files_under F item = {item}" using files_under_file [OF t ui nf] .
      have "gathers st st' ({item} \<union> (\<Union>x\<in>set rest. files_under F x))"
        using gathers_trans [OF gathers_file g] dj fi by simp
      with fi show ?thesis by simp
    next
      case (Dir ns')
      with Some have nd: "nodes F item = Some (Dir ns')" by simp
      have isd: "is_dir (disk st) item = Inr True" using pr nd "4.prems"(3) by simp
      with ns "4.prems"(1) obtain st1 where
        s1: "collect_files_recursive k item skip_dir st = Some st1"
        and s2: "collect_entries k rest skip_dir st1 = Some st'"
        by (auto split: option.splits)
      have g1: "gathers st st1 (files_under F item)"
        using "4.IH"(3) ns isd s1 "4.prems"(2,3) ui nd by blast
      then have "disk st1 = F" using "4.prems"(3) by (simp add: gathers_def)
      then have g2: "gathers st1 st' (\<Union>x\<in>set rest. files_under F x)"
        using "4.IH"(4) ns isd s1 s2 "4.prems"(2) ur dr by blast
      from gathers_trans [OF g1 g2 dj] show ?thesis by simp
    qed
  qed
qed


text \<open>Making a directory changes nothing but the directory and the directories above it.\<close>

lemma os_mkdir_local:
  assumes "os_mkdir F p = Inr F'" "canon F p = p"
  shows "\<forall>x. \<not> under x p \<longrightarrow> nodes F' x = nodes F x"
proof (intro allI impI)
  fix x assume x: "\<not> under x p"
  from assms obtain ns where
    h: "F' = F\<lparr>nodes := (nodes F)(parent p \<mapsto> Dir (ns @ [name p]), p \<mapsto> Dir [])\<rparr>"
    by (auto simp: os_mkdir_def Let_def split: option.splits node.splits)
  from x have "x \<noteq> p" "x \<noteq> parent p" using under_refl under_parent_self by auto
  with h show "nodes F' x = nodes F x" by simp
qed

lemma mkdir_exist_ok_local:
  assumes "mkdir_exist_ok F p = Inr F'" "canon F p = p"
  shows "\<forall>x. \<not> under x p \<longrightarrow> nodes F' x = nodes F x"
proof (cases "os_mkdir F p")
  case (Inl e)
  with assms have "F' = F"
    by (auto simp: mkdir_exist_ok_def split: if_splits sum.splits bool.splits)
  then show ?thesis by simp
next
  case (Inr F1)
  with assms have "F' = F1" by (simp add: mkdir_exist_ok_def)
  with Inr assms(2) show ?thesis using os_mkdir_local by blast
qed

lemma mkdir_local:
  "mkdir F p = (F', r) \<Longrightarrow> \<forall>q. under q p \<longrightarrow> canon F q = q \<Longrightarrow>
     \<forall>x. \<not> under x p \<longrightarrow> nodes F' x = nodes F x"
proof (induction F p arbitrary: F' r rule: mkdir.induct)
  case (1 F p)
  have cp: "canon F p = p" using "1.prems"(2) under_refl by blast
  show ?case
  proof (cases "os_mkdir F p")
    case (Inr F1)
    with "1.prems" have "F' = F1" by (simp add: mkdir.simps)
    with Inr cp show ?thesis using os_mkdir_local by blast
  next
    case (Inl e)
    show ?thesis
    proof (cases "e = FileNotFoundError")
      case False
      with Inl "1.prems" have "F' = F"
        by (auto simp: mkdir.simps split: sum.splits bool.splits)
      then show ?thesis by simp
    next
      case True
      show ?thesis
      proof (cases "parent p = p")
        case pp: True
        with Inl True "1.prems" have "F' = F" by (simp add: mkdir.simps)
        then show ?thesis by simp
      next
        case pp: False
        obtain F1 r1 where m: "mkdir F (parent p) = (F1, r1)" by (cases "mkdir F (parent p)")
        have up: "\<forall>q. under q (parent p) \<longrightarrow> canon F q = q"
          using "1.prems"(2) under_trans [OF _ under_parent_self] by blast
        have l0: "\<forall>x. \<not> under x (parent p) \<longrightarrow> nodes F1 x = nodes F x"
          using "1.IH" Inl True pp m up by blast
        have l1: "\<forall>x. \<not> under x p \<longrightarrow> nodes F1 x = nodes F x"
          using l0 under_trans [OF _ under_parent_self] by blast
        have c1: "canon F1 = canon F" using mkdir_keeps [OF m] by (simp add: keeps_files_def)
        show ?thesis
        proof (cases r1)
          case (Some e1)
          with Inl True pp m "1.prems" have "F' = F1" by (simp add: mkdir.simps)
          with l1 show ?thesis by simp
        next
          case None
          show ?thesis
          proof (cases "mkdir_exist_ok F1 p")
            case x: (Inl e2)
            with None Inl True pp m "1.prems" have "F' = F1" by (simp add: mkdir.simps)
            with l1 show ?thesis by simp
          next
            case x: (Inr F2)
            with None Inl True pp m "1.prems" have "F' = F2" by (simp add: mkdir.simps)
            moreover have "\<forall>x. \<not> under x p \<longrightarrow> nodes F2 x = nodes F1 x"
              using mkdir_exist_ok_local [OF x] c1 cp by simp
            ultimately show ?thesis using l1 by simp
          qed
        qed
      qed
    qed
  qed
qed

lemma is_inside_under: "is_inside c p = Inr (under p c)"
  by (simp add: is_inside_def relative_to_def under_def)

lemma skip_outside: "\<not> under src dst \<Longrightarrow> choose_skip_dir dst src = Inr None"
  using under_refl [of dst] by (auto simp: choose_skip_dir_def is_inside_under)

lemma tidy_src_present:
  assumes "tidy_tree F src"
  shows "src_missing F src = Inr False"
proof -
  from assms obtain ns where "nodes F src = Some (Dir ns)" unfolding tidy_tree_def by blast
  with tidy_probe(1,3) [OF assms under_refl] show ?thesis by (simp add: src_missing_def)
qed

lemma tidy_tree_same:
  assumes t: "tidy_tree F src" and c: "canon F' = canon F" and f: "fault F' = fault F"
    and n: "\<forall>x. under src x \<longrightarrow> nodes F' x = nodes F x"
  shows "tidy_tree F' src"
proof -
  have a: "\<exists>ns. nodes F' src = Some (Dir ns)"
    using t n under_refl [of src] unfolding tidy_tree_def by auto
  have b: "\<forall>q. under src q \<longrightarrow>
            canon F' q = q \<and> fault F' OpStat q = None \<and> fault F' OpList q = None"
    using t unfolding tidy_tree_def c f by blast
  have d: "\<forall>q ns. under src q \<and> nodes F' q = Some (Dir ns) \<longrightarrow> distinct ns"
  proof (intro allI impI)
    fix q ns assume q: "under src q \<and> nodes F' q = Some (Dir ns)"
    with n have "nodes F q = Some (Dir ns)" by auto
    with t q show "distinct ns" unfolding tidy_tree_def by blast
  qed
  have e: "\<forall>q. under src q \<and> q \<noteq> src \<and> nodes F' q \<noteq> None \<longrightarrow>
            (\<exists>ns. nodes F' (parent q) = Some (Dir ns) \<and> name q \<in> set ns)"
  proof (intro allI impI)
    fix q assume q: "under src q \<and> q \<noteq> src \<and> nodes F' q \<noteq> None"
    then have "under src (parent q)" using under_parent(1) by blast
    with n have "nodes F' (parent q) = nodes F (parent q)" by blast
    moreover from q n have "nodes F q \<noteq> None" by auto
    with t q have "\<exists>ns. nodes F (parent q) = Some (Dir ns) \<and> name q \<in> set ns"
      unfolding tidy_tree_def by blast
    ultimately show "\<exists>ns. nodes F' (parent q) = Some (Dir ns) \<and> name q \<in> set ns" by simp
  qed
  from a b d e show ?thesis unfolding tidy_tree_def by blast
qed

lemma no_copy_sites:
  "\<forall>w\<in>set ws. site w \<noteq> CopyFile \<Longrightarrow> copy_warnings ws = 0"
  by (induction ws) (auto simp: copy_warnings_def)

lemma copy_warnings_append [simp]:
  "copy_warnings (xs @ ys) = copy_warnings xs + copy_warnings ys"
  by (simp add: copy_warnings_def)

lemma target_file_inj:
  assumes "inj_on name S"
  shows "inj_on (target_file lc dst) S"
proof (rule inj_onI)
  fix f g assume fg: "f \<in> S" "g \<in> S" "target_file lc dst f = target_file lc dst g"
  then have "name (target_file lc dst f) = name (target_file lc dst g)" by simp
  then have "name f = name g" by (simp add: target_file_def)
  with assms fg(1,2) show "f = g" by (simp add: inj_on_def)
qed



lemma emptydirs_run:
  "(case main lower_ascii (Suc (Suc (Suc 0))) emptydirs_fs (Path ''/'' [''s'']) (Path ''/'' [''d'']) of
      None \<Rightarrow> False
    | Some st \<Rightarrow>
        files_to_copy st = [] \<and> stdout st = [TreeDir [] NoGlyph ''d''] \<and> ERRORS st = []
        \<and> visited st = [Path ''/'' [''s''], Path ''/'' [''s'', ''e'']])"
  by (simp add: emptydirs_fs_def main_eval fs_eval)


lemma hidden_run:
  "(case main lower_ascii (Suc (Suc (Suc 0))) hidden_fs (Path ''/'' [''s'']) (Path ''/'' [''d'']) of
      None \<Rightarrow> False
    | Some st \<Rightarrow>
        ERRORS st = [Warning Render NoAccess (Path ''/'' [''d'', ''txt''])]
        \<and> stdout st = [ProgressBar 1 1, Sleep 20, Newline, Info, TreeDir [] NoGlyph ''d'',
                        TreeDir [] Corner ''txt'', TreeInaccessible ''    '']
        \<and> raised st = None)"
  by (simp add: hidden_fs_def main_eval fs_eval)

lemma unreadable_main_run:
  "(case main lower_ascii (Suc (Suc (Suc 0))) unreadable_fs (Path ''/'' [''s'']) (Path ''/'' [''d'']) of
      None \<Rightarrow> False
    | Some st \<Rightarrow>
        files_to_copy st = [Path ''/'' [''s'', ''a.txt''], Path ''/'' [''s'', ''b.txt'']]
        \<and> ERRORS st = [Warning CopyFile NoAccess (Path ''/'' [''s'', ''b.txt''])])"
  by (simp add: unreadable_fs_def main_eval fs_eval)

lemma dup_source_files:
  "files_under dup_fs (Path ''/'' [''s''])
     = {Path ''/'' [''s'', ''a'', ''x.txt''], Path ''/'' [''s'', ''b'', ''x.txt'']}"
  by (auto simp: dup_fs_def files_under_def under_def file_node_def
      split: if_splits option.splits node.splits)

text \<open>
  C1. With the destination equal to the source, \<^verbatim>\<open>main\<close> hands the walker the source as
  skip directory, and the walker, which tests only the entries of a directory, collects
  every file of the source all the same. On the disk that a first such run leaves, the
  second run descends into the bucket directory, collects the copy made by the first run
  and fails to copy it onto itself.
\<close>

theorem dst_equal_src_is_walked:
  "choose_skip_dir (Path ''/'' [''a'']) (Path ''/'' [''a'']) = Inr (Some (Path ''/'' [''a'']))
   \<and> (case main lower_ascii (Suc (Suc (Suc 0))) same_fs (Path ''/'' [''a'']) (Path ''/'' [''a'']) of
        None \<Rightarrow> False
      | Some st \<Rightarrow>
          files_to_copy st
            = [Path ''/'' [''a'', ''x.txt''], Path ''/'' [''a'', ''txt'', ''x.txt'']]
          \<and> visited st = [Path ''/'' [''a''], Path ''/'' [''a'', ''txt'']]
          \<and> ERRORS st = [Warning CopyFile CopyFailed (Path ''/'' [''a'', ''txt'', ''x.txt''])])"
proof -
  have "choose_skip_dir (Path ''/'' [''a'']) (Path ''/'' [''a'']) = Inr (Some (Path ''/'' [''a'']))"
    by (simp add: choose_skip_dir_def)
  with same_run show ?thesis
    by (cases "main lower_ascii (Suc (Suc (Suc 0))) same_fs (Path ''/'' [''a'']) (Path ''/'' [''a''])") auto
qed

text \<open>
  C3. Two runs that are not fatally aborted and leave a recorded warning unprinted. In the
  first the source cannot be listed: the warning is recorded, no file is collected, and
  \<^verbatim>\<open>main\<close> returns after the tree without printing it. In the second a directory of the
  destination cannot be listed: the renderer records the warning after the warnings were
  printed.
\<close>

theorem recorded_warnings_not_printed:
  "(case main lower_ascii (Suc (Suc 0)) denied_fs (Path ''/'' [''s'']) (Path ''/'' [''d'']) of
      None \<Rightarrow> False
    | Some st \<Rightarrow>
        ERRORS st = [Warning WalkDir NoAccess (Path ''/'' [''s''])]
        \<and> stdout st = [TreeDir [] NoGlyph ''d''] \<and> raised st = None)
   \<and> (case main lower_ascii (Suc (Suc (Suc 0))) hidden_fs (Path ''/'' [''s'']) (Path ''/'' [''d'']) of
      None \<Rightarrow> False
    | Some st \<Rightarrow>
        ERRORS st = [Warning Render NoAccess (Path ''/'' [''d'', ''txt''])]
        \<and> stdout st = [ProgressBar 1 1, Sleep 20, Newline, Info, TreeDir [] NoGlyph ''d'',
                        TreeDir [] Corner ''txt'', TreeInaccessible ''    '']
        \<and> raised st = None)"
  using denied_run hidden_run by simp

lemma late_run:
  "(case main lower_ascii (Suc (Suc (Suc 0))) late_fs (Path ''/'' [''s'']) (Path ''/'' [''d'']) of
      None \<Rightarrow> False
    | Some st \<Rightarrow>
        ERRORS st = [Warning CopyFile NoAccess (Path ''/'' [''s'', ''a.txt''])]
        \<and> nodes (disk st) (Path ''/'' [''d'', ''txt'', ''a.txt'']) = Some (File ''A'' 7)
        \<and> files_under (disk st) (Path ''/'' [''d'']) = {Path ''/'' [''d'', ''txt'', ''a.txt'']})"
  apply (simp add: late_fs_def main_eval fs_eval)
  apply (auto simp: files_under_def under_def file_node_def split: if_splits option.splits node.splits)
  done

lemma stale_run:
  "(case main lower_ascii (Suc (Suc (Suc 0))) stale_fs (Path ''/'' [''s'']) (Path ''/'' [''d'']) of
      None \<Rightarrow> False
    | Some st \<Rightarrow>
        ERRORS st = []
        \<and> files_under (disk st) (Path ''/'' [''d''])
            = {Path ''/'' [''d'', ''old.log''], Path ''/'' [''d'', ''txt'', ''a.txt'']})"
  apply (simp add: stale_fs_def main_eval fs_eval)
  apply (auto simp: files_under_def under_def file_node_def split: if_splits option.splits node.splits)
  done

lemma closed_run:
  "(case main lower_ascii (Suc (Suc (Suc 0))) closed_fs (Path ''/'' [''s'']) (Path ''/'' [''d'']) of
      None \<Rightarrow> False
    | Some st \<Rightarrow>
        ERRORS st = [Warning WalkDir NoAccess (Path ''/'' [''s'', ''sub''])]
        \<and> files_under (disk st) (Path ''/'' [''d'']) = {})"
  apply (simp add: closed_fs_def main_eval fs_eval)
  apply (auto simp: files_under_def under_def file_node_def split: if_splits option.splits node.splits)
  done

lemma nodst_run:
  "(case main lower_ascii (Suc (Suc 0)) nodst_fs (Path ''/'' [''s'']) (Path ''/'' [''d'']) of
      None \<Rightarrow> False
    | Some st \<Rightarrow>
        ERRORS st = [] \<and> stdout st = [FatalDst (Path ''/'' [''d''])]
        \<and> files_under (disk st) (Path ''/'' [''d'']) = {})"
  apply (simp add: nodst_fs_def main_eval fs_eval)
  apply (auto simp: files_under_def under_def file_node_def split: if_splits option.splits node.splits)
  done

lemma one_source_file:
  "files_under late_fs (Path ''/'' [''s'']) = {Path ''/'' [''s'', ''a.txt'']}"
  "files_under stale_fs (Path ''/'' [''s'']) = {Path ''/'' [''s'', ''a.txt'']}"
  "files_under nodst_fs (Path ''/'' [''s'']) = {Path ''/'' [''s'', ''a.txt'']}"
  by (auto simp: late_fs_def stale_fs_def nodst_fs_def files_under_def under_def
      file_node_def split: if_splits option.splits node.splits)

lemma closed_source_files:
  "files_under closed_fs (Path ''/'' [''s''])
     = {Path ''/'' [''s'', ''sub'', ''a.txt''], Path ''/'' [''s'', ''sub'', ''b.log'']}"
  by (auto simp: closed_fs_def files_under_def under_def file_node_def
      split: if_splits option.splits node.splits)

lemma unreadable_source_files:
  "files_under unreadable_fs (Path ''/'' [''s''])
     = {Path ''/'' [''s'', ''a.txt''], Path ''/'' [''s'', ''b.txt'']}"
  by (auto simp: unreadable_fs_def files_under_def under_def file_node_def
      split: if_splits option.splits node.splits)

lemma unreadable_tidy: "tidy_tree unreadable_fs (Path ''/'' [''s''])"
  unfolding tidy_tree_def
  by (auto simp: unreadable_fs_def under_def parent_def name_def split: if_splits)



section \<open>Termination and reach of the walker\<close>

text \<open>
  On a disk without directories at depth \<open>D\<close> or deeper, the walker returns when it is
  given more levels of recursion than lie between its root and that depth.
\<close>

lemma iterdir_lengths:
  "iterdir F p = Inr es \<Longrightarrow> \<forall>item\<in>set es. length (parts item) = Suc (length (parts p))"
  by (auto simp: iterdir_def child_def split: option.splits node.splits)

lemma walker_returns:
  assumes bound: "\<forall>p. D \<le> length (parts p) \<longrightarrow> is_dir F p \<noteq> Inr True"
  shows "disk st = F \<Longrightarrow> D < k + length (parts src) \<Longrightarrow> 0 < k \<Longrightarrow>
           \<exists>st'. collect_files_recursive k src skip st = Some st'"
    and "disk st = F \<Longrightarrow> \<forall>item\<in>set es. length (parts item) = n \<Longrightarrow> D < k + n \<Longrightarrow>
           \<exists>st'. collect_entries k es skip st = Some st'"
proof (induction k src skip st and k es skip st arbitrary: and n
    rule: collect_files_recursive_collect_entries.induct)
  case (1 src skip_dir st)
  then show ?case by simp
next
  case (2 k src skip_dir st)
  let ?st1 = "st\<lparr>visited := visited st @ [src]\<rparr>"
  show ?case
  proof (cases "iterdir (disk st) src")
    case (Inl e)
    then show ?thesis by (simp add: Let_def)
  next
    case (Inr entries)
    have d: "disk ?st1 = F" using "2.prems"(1) by simp
    have l: "\<forall>item\<in>set entries. length (parts item) = Suc (length (parts src))"
      using iterdir_lengths [OF Inr] .
    have b: "D < k + Suc (length (parts src))" using "2.prems"(2) by simp
    from "2.IH" [OF refl Inr d l b] Inr show ?thesis by (simp add: Let_def)
  qed
next
  case (3 k skip_dir st)
  then show ?case by simp
next
  case (4 k item rest skip_dir st)
  have lr: "\<forall>x\<in>set rest. length (parts x) = n" and li: "length (parts item) = n"
    using "4.prems"(2) by simp_all
  show ?case
  proof (cases "is_skipped (disk st) skip_dir item")
    case True
    have "\<exists>st'. collect_entries k rest skip_dir st = Some st'"
      using "4.IH"(1) True "4.prems"(1,3) lr by blast
    with True show ?thesis by simp
  next
    case ns: False
    show ?thesis
    proof (cases "is_dir (disk st) item")
      case (Inl e)
      have "disk (warn (read_warning WalkItem e item) st) = F"
        using "4.prems"(1) by (simp add: warn_def)
      then have "\<exists>st'. collect_entries k rest skip_dir (warn (read_warning WalkItem e item) st) = Some st'"
        using "4.IH"(2) ns Inl lr "4.prems"(3) by blast
      with ns Inl show ?thesis by simp
    next
      case (Inr d)
      show ?thesis
      proof (cases d)
        case True
        with Inr "4.prems"(1) have "is_dir F item = Inr True" by simp
        with bound have "length (parts item) < D" by (meson not_le)
        with li "4.prems"(3) have k: "0 < k" "D < k + length (parts item)" by simp_all
        then obtain st1 where s1: "collect_files_recursive k item skip_dir st = Some st1"
          using "4.IH"(3) ns Inr True "4.prems"(1) by blast
        have "disk st1 = F" using walk_extends(1) [OF s1] "4.prems"(1)
          by (simp add: extends_walk_def)
        then have "\<exists>st'. collect_entries k rest skip_dir st1 = Some st'"
          using "4.IH"(4) ns Inr True s1 lr "4.prems"(3) by blast
        with ns Inr True s1 show ?thesis by simp
      next
        case False
        show ?thesis
        proof (cases "is_file (disk st) item")
          case (Inl e)
          have "disk (warn (read_warning WalkItem e item) st) = F"
            using "4.prems"(1) by (simp add: warn_def)
          then have "\<exists>st'. collect_entries k rest skip_dir (warn (read_warning WalkItem e item) st) = Some st'"
            using "4.IH"(5) ns Inr False Inl lr "4.prems"(3) by blast
          with ns Inr False Inl show ?thesis by simp
        next
          case f: (Inr b)
          show ?thesis
          proof (cases b)
            case True
            have "disk (st\<lparr>files_to_copy := files_to_copy st @ [item]\<rparr>) = F"
              using "4.prems"(1) by simp
            then have "\<exists>st'. collect_entries k rest skip_dir
                (st\<lparr>files_to_copy := files_to_copy st @ [item]\<rparr>) = Some st'"
              using "4.IH"(6) ns Inr False f True lr "4.prems"(3) by blast
            with ns Inr False f True show ?thesis by simp
          next
            case nf: False
            have "\<exists>st'. collect_entries k rest skip_dir st = Some st'"
              using "4.IH"(7) ns Inr False f nf lr "4.prems"(1,3) by blast
            with ns Inr False f nf show ?thesis by simp
          qed
        qed
      qed
    qed
  qed
qed

lemma walk_within_refl: "walk_within Q st st"
  by (simp add: walk_within_def)

lemma walk_within_trans:
  assumes "walk_within Q st st1" "walk_within Q st1 st2"
  shows "walk_within Q st st2"
proof -
  from assms(1) obtain fs vs where a: "disk st1 = disk st"
    "files_to_copy st1 = files_to_copy st @ fs" "visited st1 = visited st @ vs"
    "\<forall>p\<in>set fs \<union> set vs. Q p"
    unfolding walk_within_def by blast
  from assms(2) obtain fs' vs' where b: "disk st2 = disk st1"
    "files_to_copy st2 = files_to_copy st1 @ fs'" "visited st2 = visited st1 @ vs'"
    "\<forall>p\<in>set fs' \<union> set vs'. Q p"
    unfolding walk_within_def by blast
  have "files_to_copy st2 = files_to_copy st @ (fs @ fs')" "visited st2 = visited st @ (vs @ vs')"
    using a b by simp_all
  moreover have "\<forall>p\<in>set (fs @ fs') \<union> set (vs @ vs'). Q p" using a(4) b(4) by auto
  ultimately show ?thesis unfolding walk_within_def using a(1) b(1) by metis
qed

lemma walk_within_warn: "walk_within Q st (warn w st)"
  by (simp add: walk_within_def warn_def)

lemma walk_within_file: "Q p \<Longrightarrow> walk_within Q st (st\<lparr>files_to_copy := files_to_copy st @ [p]\<rparr>)"
  by (simp add: walk_within_def)

lemma walk_within_visit: "Q p \<Longrightarrow> walk_within Q st (st\<lparr>visited := visited st @ [p]\<rparr>)"
  by (simp add: walk_within_def)

lemma walk_invariant:
  assumes step: "\<And>p es item. Q p \<Longrightarrow> iterdir F p = Inr es \<Longrightarrow> item \<in> set es \<Longrightarrow>
                   \<not> is_skipped F skip item \<Longrightarrow> Q item"
  shows "collect_files_recursive k src skip st = Some st' \<Longrightarrow> disk st = F \<Longrightarrow> Q src \<Longrightarrow>
           walk_within Q st st'"
    and "collect_entries k es skip st = Some st' \<Longrightarrow> disk st = F \<Longrightarrow>
           (\<forall>item\<in>set es. \<not> is_skipped F skip item \<longrightarrow> Q item) \<Longrightarrow> walk_within Q st st'"
  using step
proof (induction k src skip st and k es skip st arbitrary: st' and st'
    rule: collect_files_recursive_collect_entries.induct)
  case (1 src skip_dir st)
  then show ?case by simp
next
  case (2 k src skip_dir st)
  let ?st1 = "st\<lparr>visited := visited st @ [src]\<rparr>"
  have v: "walk_within Q st ?st1" using "2.prems"(3) by (rule walk_within_visit)
  have d: "disk ?st1 = F" using "2.prems"(2) by simp
  show ?case
  proof (cases "iterdir (disk st) src")
    case (Inl e)
    with "2.prems"(1) have "st' = warn (read_warning WalkDir e src) ?st1" by (simp add: Let_def)
    then show ?thesis using v walk_within_warn walk_within_trans by blast
  next
    case (Inr entries)
    with "2.prems"(1) have r: "collect_entries k entries skip_dir ?st1 = Some st'"
      by (simp add: Let_def)
    have q: "\<forall>item\<in>set entries. \<not> is_skipped F skip_dir item \<longrightarrow> Q item"
      using "2.prems"(2,3,4) Inr by blast
    have "walk_within Q ?st1 st'"
      by (rule "2.IH" [OF refl Inr r d q]) (rule "2.prems"(4))
    with v show ?thesis using walk_within_trans by blast
  qed
next
  case (3 k skip_dir st)
  then show ?case by (simp add: walk_within_refl)
next
  case (4 k item rest skip_dir st)
  have qr: "\<forall>x\<in>set rest. \<not> is_skipped F skip_dir x \<longrightarrow> Q x" using "4.prems"(3) by simp
  note stp = "4.prems"(4)
  show ?case
  proof (cases "is_skipped (disk st) skip_dir item")
    case True
    with "4.prems"(1) have "collect_entries k rest skip_dir st = Some st'" by simp
    then show ?thesis using "4.IH"(1) True "4.prems"(2) qr stp by blast
  next
    case ns: False
    then have qi: "Q item" using "4.prems"(2,3) by simp
    show ?thesis
    proof (cases "is_dir (disk st) item")
      case (Inl e)
      let ?w = "warn (read_warning WalkItem e item) st"
      from ns Inl "4.prems"(1) have r: "collect_entries k rest skip_dir ?w = Some st'" by simp
      have "disk ?w = F" using "4.prems"(2) by (simp add: warn_def)
      then have "walk_within Q ?w st'" using "4.IH"(2) ns Inl r qr stp by blast
      then show ?thesis using walk_within_warn walk_within_trans by blast
    next
      case (Inr d)
      show ?thesis
      proof (cases d)
        case True
        with ns Inr "4.prems"(1) obtain st1 where
          s1: "collect_files_recursive k item skip_dir st = Some st1"
          and s2: "collect_entries k rest skip_dir st1 = Some st'"
          by (auto split: option.splits)
        have w1: "walk_within Q st st1" using "4.IH"(3) ns Inr True s1 "4.prems"(2) qi stp by blast
        then have "disk st1 = F" using "4.prems"(2) by (simp add: walk_within_def)
        then have "walk_within Q st1 st'" using "4.IH"(4) ns Inr True s1 s2 qr stp by blast
        with w1 show ?thesis using walk_within_trans by blast
      next
        case False
        show ?thesis
        proof (cases "is_file (disk st) item")
          case (Inl e)
          let ?w = "warn (read_warning WalkItem e item) st"
          from ns Inr False Inl "4.prems"(1) have
            r: "collect_entries k rest skip_dir ?w = Some st'" by simp
          have "disk ?w = F" using "4.prems"(2) by (simp add: warn_def)
          then have "walk_within Q ?w st'" using "4.IH"(5) ns Inr False Inl r qr stp by blast
          then show ?thesis using walk_within_warn walk_within_trans by blast
        next
          case f: (Inr b)
          show ?thesis
          proof (cases b)
            case True
            let ?c = "st\<lparr>files_to_copy := files_to_copy st @ [item]\<rparr>"
            from ns Inr False f True "4.prems"(1) have
              r: "collect_entries k rest skip_dir ?c = Some st'" by simp
            have "disk ?c = F" using "4.prems"(2) by simp
            then have "walk_within Q ?c st'"
              using "4.IH"(6) ns Inr False f True r qr stp by blast
            with walk_within_file [of Q item st] qi show ?thesis using walk_within_trans by blast
          next
            case nf: False
            with ns Inr False f "4.prems"(1) have
              r: "collect_entries k rest skip_dir st = Some st'" by simp
            then show ?thesis using "4.IH"(7) ns Inr False f nf "4.prems"(2) qr stp by blast
          qed
        qed
      qed
    qed
  qed
qed

lemma under_child:
  assumes "under d (child p n)" "child p n \<noteq> d"
  shows "under d p"
proof -
  from assms(1) have a: "anchor p = anchor d" "take (length (parts d)) (parts p @ [n]) = parts d"
    by (simp_all add: under_def child_def)
  have "length (parts d) \<le> length (parts p)"
  proof (rule ccontr)
    assume "\<not> length (parts d) \<le> length (parts p)"
    then have "take (length (parts d)) (parts p @ [n]) = parts p @ [n]" by simp
    with a have "child p n = d" by (cases d) (simp add: child_def)
    with assms(2) show False by simp
  qed
  with a(2) have "take (length (parts d)) (parts p) = parts d" by simp
  with a(1) show ?thesis by (simp add: under_def)
qed

text \<open>
  With the destination as skip directory and a source that is neither the destination nor
  below it, the walker collects no file at or below the destination and is called on no
  directory at or below it.
\<close>

lemma walker_stays_out_of_nested_dst:
  assumes run: "collect_files_recursive k src (Some dst) st = Some st'"
    and out: "\<not> under dst src"
  shows "\<exists>fs vs. files_to_copy st' = files_to_copy st @ fs \<and> visited st' = visited st @ vs
           \<and> (\<forall>p\<in>set fs \<union> set vs. \<not> under dst p)"
proof -
  have step: "\<not> under dst item"
    if q: "\<not> under dst p" and l: "iterdir (disk st) p = Inr es" and i: "item \<in> set es"
      and ns: "\<not> is_skipped (disk st) (Some dst) item" for p es item
  proof -
    from l i obtain n where c: "item = child p n"
      by (auto simp: iterdir_def split: option.splits node.splits)
    from ns have "item \<noteq> dst" by (auto simp: is_skipped_def)
    with c q show ?thesis using under_child by blast
  qed
  have "walk_within (\<lambda>p. \<not> under dst p) st st'"
    using walk_invariant(1) [of "\<lambda>p. \<not> under dst p" "disk st" "Some dst" k src st st']
      step run out by blast
  then show ?thesis by (simp add: walk_within_def)
qed

end
